theory Spec2Isabelle
  imports Main "HOL-Library.Word" "HOL-Library.Multiset"
begin

section \<open>Machine integers and undefined behaviour\<close>

text \<open>
  \<^verbatim>\<open>unsigned int\<close> is a 32-bit word whose arithmetic wraps. \<^verbatim>\<open>int\<close> is the same bit
  pattern read in two's complement by \<open>sint\<close>; incrementing \<^verbatim>\<open>INT_MAX\<close> and reading a
  \<^verbatim>\<open>std::vector\<close> outside its range are undefined in C++ and are faults of the model.
\<close>

type_synonym u32 = "32 word"
type_synonym s32 = "32 word"

datatype fault = SignedOverflow | OutOfBounds | DivisionByZero

datatype abort = UB fault | RuntimeError string

definition INT_MAX :: nat where
  "INT_MAX = 2147483647"

definition UINT_MAX :: nat where
  "UINT_MAX = 4294967295"

text \<open>\<^verbatim>\<open>as[i]\<close> with an \<^verbatim>\<open>int\<close> index: the index is sign-extended to \<^verbatim>\<open>size_t\<close>.\<close>

definition at :: "u32 list \<Rightarrow> s32 \<Rightarrow> fault + u32" where
  "at v i = (if 0 \<le> sint i \<and> nat (sint i) < length v then Inr (v ! nat (sint i))
             else Inl OutOfBounds)"

definition put :: "u32 list \<Rightarrow> s32 \<Rightarrow> u32 \<Rightarrow> fault + u32 list" where
  "put v i x = (if 0 \<le> sint i \<and> nat (sint i) < length v then Inr (v[nat (sint i) := x])
                else Inl OutOfBounds)"

text \<open>
  \<^verbatim>\<open>for (int i = ...; i < n; ++i) body\<close> with \<^verbatim>\<open>unsigned int n\<close>: the comparison converts
  \<^verbatim>\<open>i\<close> to unsigned, the body runs, then \<^verbatim>\<open>++i\<close> is a signed increment.
\<close>

function for_int :: "u32 \<Rightarrow> (s32 \<Rightarrow> 'a \<Rightarrow> fault + 'a) \<Rightarrow> s32 \<Rightarrow> 'a \<Rightarrow> fault + 'a" where
  "for_int n body i s =
     (if i < n then
        (case body i s of
           Inl e \<Rightarrow> Inl e
         | Inr s' \<Rightarrow> if i = 2147483647 then Inl SignedOverflow
                     else for_int n body (i + 1) s')
      else Inr s)"
  by pat_completeness auto
termination
proof (relation "measure (\<lambda>(n, body, i, s). unat n - unat i)")
  show "wf (measure (\<lambda>(n :: u32, body :: s32 \<Rightarrow> 'a \<Rightarrow> fault + 'a, i :: s32, s :: 'a).
              unat n - unat i))"
    by simp
next
  fix n :: u32 and body :: "s32 \<Rightarrow> 'a \<Rightarrow> fault + 'a" and i :: s32 and s x2 :: 'a
  assume lt: "i < n"
  then have "unat i < unat n" by (simp add: word_less_nat_alt)
  moreover have "unat (i + 1) = unat i + 1"
  proof -
    have "unat i + unat (1 :: u32) < 2 ^ LENGTH(32)"
      using \<open>unat i < unat n\<close> unsigned_less [of n, where 'a = nat] by simp
    then show ?thesis by (simp add: unat_add_lem [THEN iffD1])
  qed
  ultimately show "((n, body, i + 1, x2), (n, body, i, s))
      \<in> measure (\<lambda>(n, body, i, s). unat n - unat i)"
    by simp
qed

declare for_int.simps [simp del]

section \<open>The harness's constants and the work partition\<close>

definition benchmarkingIters :: nat where
  "benchmarkingIters = 10"

definition n_elems :: u32 where
  "n_elems = 100 * 1000 * 1000"

definition workGroupSize :: u32 where
  "workGroupSize = 128"

text \<open>\<^verbatim>\<open>(n + workGroupSize - 1) / workGroupSize * workGroupSize\<close> in \<^verbatim>\<open>unsigned int\<close>.\<close>

definition global_work_size :: "u32 \<Rightarrow> u32 \<Rightarrow> fault + u32" where
  "global_work_size n g =
     (if g = 0 then Inl DivisionByZero else Inr ((n + g - 1) div g * g))"

section \<open>The reference oracle and the sequential CPU sum\<close>

text \<open>
  A loop that faults stops with its fault; \<open>fold_fault\<close> runs a body over a list of
  counter values in order and is what a \<^verbatim>\<open>for\<close> loop is compared with.
\<close>

primrec fold_fault :: "('i \<Rightarrow> 'a \<Rightarrow> fault + 'a) \<Rightarrow> 'i list \<Rightarrow> 'a \<Rightarrow> fault + 'a" where
  "fold_fault f [] s = Inr s"
| "fold_fault f (x # xs) s = (case f x s of Inl e \<Rightarrow> Inl e | Inr s' \<Rightarrow> fold_fault f xs s')"

text \<open>The strictly sequential left-to-right sum, modulo \<open>2 ^ 32\<close>.\<close>

definition seq_sum :: "u32 list \<Rightarrow> u32" where
  "seq_sum as = fold (\<lambda>x s. s + x) as 0"

text \<open>\<^verbatim>\<open>unsigned int sum = 0; for (int i = 0; i < n; ++i) sum += as[i];\<close>\<close>

definition cpu_sum :: "u32 list \<Rightarrow> u32 \<Rightarrow> fault + u32" where
  "cpu_sum as n =
     for_int n (\<lambda>i sum. case at as i of Inl e \<Rightarrow> Inl e | Inr x \<Rightarrow> Inr (sum + x)) 0 0"

text \<open>
  Input generation. \<^verbatim>\<open>FastRandom\<close> is a collaborator: its state \<open>'r\<close> and its
  \<^verbatim>\<open>next(lo, hi)\<close> are parameters. The upper bound
  \<^verbatim>\<open>std::numeric_limits<unsigned int>::max() / n\<close> is an unsigned quotient converted to
  \<^verbatim>\<open>int\<close>; the result is cast back to \<^verbatim>\<open>unsigned int\<close>.
\<close>

type_synonym 'r random = "'r \<Rightarrow> int \<Rightarrow> int \<Rightarrow> int \<times> 'r"

definition generate_body ::
  "'r random \<Rightarrow> u32 \<Rightarrow> s32 \<Rightarrow> 'r \<times> u32 list \<times> u32 \<Rightarrow> fault + 'r \<times> u32 list \<times> u32" where
  "generate_body nxt n i = (\<lambda>(r, as, reference_sum).
     if n = 0 then Inl DivisionByZero
     else
       let (v, r') = nxt r 0 (sint (4294967295 div n :: u32)) in
       case put as i (word_of_int v) of
         Inl e \<Rightarrow> Inl e
       | Inr as' \<Rightarrow>
           (case at as' i of
              Inl e \<Rightarrow> Inl e
            | Inr x \<Rightarrow> Inr (r', as', reference_sum + x)))"

definition generate :: "'r random \<Rightarrow> 'r \<Rightarrow> u32 \<Rightarrow> fault + 'r \<times> u32 list \<times> u32" where
  "generate nxt r0 n = for_int n (generate_body nxt n) 0 (r0, replicate (unat n) 0, 0)"

text \<open>The contract of \<^verbatim>\<open>FastRandom::next\<close>: a value between its two bounds.\<close>

definition bounded_random :: "'r random \<Rightarrow> bool" where
  "bounded_random nxt =
     (\<forall>r lo hi. lo \<le> hi \<longrightarrow> lo \<le> fst (nxt r lo hi) \<and> fst (nxt r lo hi) \<le> hi)"

section \<open>The OpenMP reduction\<close>

text \<open>
  \<^verbatim>\<open>#pragma omp parallel for reduction(+:sum)\<close>: the iterations \<open>0, \<dots>, n - 1\<close> are
  distributed over the threads of the team, each thread adds its iterations into a
  private copy of \<^verbatim>\<open>sum\<close> that starts at \<open>0\<close>, and the private copies are added to the
  original \<^verbatim>\<open>sum\<close> in an unspecified order. A schedule lists the threads' iterations,
  the threads in the order in which their copies are combined.
\<close>

type_synonym schedule = "nat list list"

definition valid_schedule :: "nat \<Rightarrow> schedule \<Rightarrow> bool" where
  "valid_schedule n sched = (sort (concat sched) = [0..<n])"

definition thread_sum :: "u32 list \<Rightarrow> nat list \<Rightarrow> fault + u32" where
  "thread_sum as its =
     fold_fault (\<lambda>i s. if i < length as then Inr (s + as ! i) else Inl OutOfBounds) its 0"

definition omp_sum :: "u32 list \<Rightarrow> schedule \<Rightarrow> fault + u32" where
  "omp_sum as sched =
     fold_fault (\<lambda>its s. case thread_sum as its of Inl e \<Rightarrow> Inl e | Inr p \<Rightarrow> Inr (s + p))
       sched 0"

section \<open>The benchmark harness\<close>

text \<open>
  What the program writes with \<^verbatim>\<open><<\<close>: strings, integers, and the timer's values,
  which are opaque here.
\<close>

datatype item = Str string | UInt u32 | SInt int | LapAvg | LapStd | Throughput | Endl

text \<open>
  The trace of the run: the transfers to and from the one-element sum buffer, the kernel
  dispatches (kernel name, work-group size, global size, and the buffer's value before
  and after), the timer's laps and the comparisons of \<^verbatim>\<open>EXPECT_THE_SAME\<close>.
\<close>

datatype event =
    WriteN u32
  | Exec string u32 u32 u32 u32
  | ReadN u32
  | NextLap
  | Expect u32 u32 int

record st =
  cout :: "item list"
  cerr :: "item list"
  thrown :: "abort option"
  sum_host :: u32
  as_buffer :: "u32 list"
  sum_buffer :: u32
  events :: "event list"

text \<open>
  The kernels are compiled from \<^verbatim>\<open>cl/sum_cl.h\<close>; a kernel is any function of its name,
  the work size and the argument \<open>n\<close> on the two device buffers.
\<close>

type_synonym kernels = "string \<Rightarrow> u32 \<Rightarrow> u32 \<Rightarrow> u32 \<Rightarrow> u32 list \<times> u32 \<Rightarrow> u32 list \<times> u32"

text \<open>Statements in sequence; a thrown exception skips the rest.\<close>

primrec run_steps :: "(st \<Rightarrow> st) list \<Rightarrow> st \<Rightarrow> st" where
  "run_steps [] s = s"
| "run_steps (f # fs) s = (let s' = f s in if thrown s' = None then run_steps fs s' else s')"

definition mismatch_report :: "u32 \<Rightarrow> u32 \<Rightarrow> string \<Rightarrow> string \<Rightarrow> int \<Rightarrow> item list" where
  "mismatch_report a b message filename line =
     [Str message, Str '' But '', UInt a, Str '' != '', UInt b, Str '', '',
      Str filename, Str '':'', SInt line, Endl]"

definition raiseFail :: "u32 \<Rightarrow> u32 \<Rightarrow> string \<Rightarrow> string \<Rightarrow> int \<Rightarrow> st \<Rightarrow> st" where
  "raiseFail a b message filename line s =
     (if a \<noteq> b then
        s\<lparr>cerr := cerr s @ mismatch_report a b message filename line,
          thrown := Some (RuntimeError message)\<rparr>
      else s)"

text \<open>\<^verbatim>\<open>EXPECT_THE_SAME(a, b, message)\<close> at a line of the file; the trace records the call.\<close>

definition EXPECT_THE_SAME :: "string \<Rightarrow> int \<Rightarrow> u32 \<Rightarrow> u32 \<Rightarrow> string \<Rightarrow> st \<Rightarrow> st" where
  "EXPECT_THE_SAME file line a b message s =
     raiseFail a b message file line (s\<lparr>events := events s @ [Expect a b line]\<rparr>)"

definition nextLap :: "st \<Rightarrow> st" where
  "nextLap s = s\<lparr>events := events s @ [NextLap]\<rparr>"

definition report :: "string \<Rightarrow> item list" where
  "report label =
     [Str label, LapAvg, Str ''+-'', LapStd, Str '' s'', Endl,
      Str label, Throughput, Str '' millions/s'', Endl]"

definition print_report :: "string \<Rightarrow> st \<Rightarrow> st" where
  "print_report label s = s\<lparr>cout := cout s @ report label\<rparr>"

definition set_sum :: "fault + u32 \<Rightarrow> st \<Rightarrow> st" where
  "set_sum r s = (case r of Inl e \<Rightarrow> s\<lparr>thrown := Some (UB e)\<rparr> | Inr v \<Rightarrow> s\<lparr>sum_host := v\<rparr>)"

text \<open>Lines 33 to 45: the sequential CPU block.\<close>

definition cpu_iter :: "string \<Rightarrow> u32 list \<Rightarrow> u32 \<Rightarrow> u32 \<Rightarrow> st \<Rightarrow> st" where
  "cpu_iter file as n reference_sum =
     run_steps
       [set_sum (cpu_sum as n),
        (\<lambda>s. EXPECT_THE_SAME file 40 reference_sum (sum_host s)
                ''CPU result should be consistent!'' s),
        nextLap]"

definition cpu_block :: "string \<Rightarrow> u32 list \<Rightarrow> u32 \<Rightarrow> u32 \<Rightarrow> st \<Rightarrow> st" where
  "cpu_block file as n reference_sum =
     run_steps
       (replicate benchmarkingIters (cpu_iter file as n reference_sum)
        @ [print_report ''CPU:     ''])"

text \<open>Lines 47 to 60: the OpenMP block; \<open>scheds iter\<close> is the schedule of iteration \<open>iter\<close>.\<close>

definition omp_iter :: "string \<Rightarrow> u32 list \<Rightarrow> u32 \<Rightarrow> schedule \<Rightarrow> st \<Rightarrow> st" where
  "omp_iter file as reference_sum sched =
     run_steps
       [set_sum (omp_sum as sched),
        (\<lambda>s. EXPECT_THE_SAME file 55 reference_sum (sum_host s)
                ''CPU OpenMP result should be consistent!'' s),
        nextLap]"

definition omp_block :: "string \<Rightarrow> u32 list \<Rightarrow> u32 \<Rightarrow> (nat \<Rightarrow> schedule) \<Rightarrow> st \<Rightarrow> st" where
  "omp_block file as reference_sum scheds =
     run_steps
       (map (\<lambda>iter. omp_iter file as reference_sum (scheds iter)) [0..<benchmarkingIters]
        @ [print_report ''CPU OMP: ''])"

text \<open>The device operations of a GPU block.\<close>

definition writeN_sum :: "st \<Rightarrow> st" where
  "writeN_sum s = s\<lparr>sum_buffer := sum_host s, events := events s @ [WriteN (sum_host s)]\<rparr>"

definition readN_sum :: "st \<Rightarrow> st" where
  "readN_sum s = s\<lparr>sum_host := sum_buffer s, events := events s @ [ReadN (sum_buffer s)]\<rparr>"

definition exec :: "kernels \<Rightarrow> string \<Rightarrow> u32 \<Rightarrow> u32 \<Rightarrow> u32 \<Rightarrow> st \<Rightarrow> st" where
  "exec K name wgs gws n s =
     (let (a, c) = K name wgs gws n (as_buffer s, sum_buffer s)
      in s\<lparr>as_buffer := a, sum_buffer := c,
            events := events s @ [Exec name wgs gws (sum_buffer s) c]\<rparr>)"

text \<open>
  The five GPU blocks (lines 83 to 179) differ in the kernel's name, the global size, the
  line of the check and the label of the report.
\<close>

definition gpu_iter :: "kernels \<Rightarrow> string \<Rightarrow> u32 \<Rightarrow> u32 \<Rightarrow> st \<Rightarrow> st" where
  "gpu_iter K name gws n = run_steps [writeN_sum, exec K name workGroupSize gws n, nextLap]"

definition gpu_block ::
  "kernels \<Rightarrow> string \<Rightarrow> u32 \<Rightarrow> int \<Rightarrow> string \<Rightarrow> string \<Rightarrow> u32 \<Rightarrow> u32 \<Rightarrow> st \<Rightarrow> st" where
  "gpu_block K name gws line label file n reference_sum =
     run_steps
       ([\<lambda>s. s\<lparr>sum_host := 0\<rparr>]
        @ replicate benchmarkingIters (gpu_iter K name gws n)
        @ [readN_sum,
           (\<lambda>s. EXPECT_THE_SAME file line reference_sum (sum_host s)
                   ''GPU result should be consistent!'' s),
           print_report label])"

definition gpu_blocks :: "kernels \<Rightarrow> string \<Rightarrow> u32 \<Rightarrow> u32 \<Rightarrow> u32 \<Rightarrow> (st \<Rightarrow> st) list" where
  "gpu_blocks K file n reference_sum global_size =
     [gpu_block K ''globalAtomSum'' global_size 97 ''GPU (Atomic): '' file n reference_sum,
      gpu_block K ''BatchSum'' (global_size div 32) 117 ''GPU (BatchSum): '' file n
        reference_sum,
      gpu_block K ''BatchSumCoalesed'' (global_size div 32) 137 ''GPU (BatchSumCoalesed): ''
        file n reference_sum,
      gpu_block K ''LocalMemSUm'' global_size 156 ''GPU (LocalMemSum): '' file n reference_sum,
      gpu_block K ''TreeSum'' global_size 175 ''GPU (TreeSum): '' file n reference_sum]"

text \<open>
  \<^verbatim>\<open>main\<close> for an element count \<open>n\<close>. \<open>junk\<close> is the content of the sum buffer after
  \<^verbatim>\<open>resizeN(1)\<close>, \<open>file\<close> the expansion of \<^verbatim>\<open>__FILE__\<close>.
\<close>

definition start :: "u32 \<Rightarrow> st" where
  "start junk =
     \<lparr>cout = [], cerr = [], thrown = None, sum_host = 0, as_buffer = [], sum_buffer = junk,
      events = []\<rparr>"

definition gpu_part :: "kernels \<Rightarrow> string \<Rightarrow> u32 \<Rightarrow> u32 \<Rightarrow> st \<Rightarrow> st" where
  "gpu_part K file n reference_sum s =
     (case global_work_size n workGroupSize of
        Inl e \<Rightarrow> s\<lparr>thrown := Some (UB e)\<rparr>
      | Inr global_size \<Rightarrow> run_steps (gpu_blocks K file n reference_sum global_size) s)"

definition harness ::
  "'r random \<Rightarrow> 'r \<Rightarrow> (nat \<Rightarrow> schedule) \<Rightarrow> kernels \<Rightarrow> string \<Rightarrow> u32 \<Rightarrow> u32 \<Rightarrow> st" where
  "harness nxt r0 scheds K file junk n =
     (case generate nxt r0 n of
        Inl e \<Rightarrow> (start junk)\<lparr>thrown := Some (UB e)\<rparr>
      | Inr (r, as, reference_sum) \<Rightarrow>
          run_steps
            [cpu_block file as n reference_sum,
             omp_block file as reference_sum scheds,
             (\<lambda>s. s\<lparr>as_buffer := as\<rparr>),
             gpu_part K file n reference_sum]
            (start junk))"

definition main_sum ::
  "'r random \<Rightarrow> 'r \<Rightarrow> (nat \<Rightarrow> schedule) \<Rightarrow> kernels \<Rightarrow> string \<Rightarrow> u32 \<Rightarrow> st" where
  "main_sum nxt r0 scheds K file junk = harness nxt r0 scheds K file junk n_elems"


section \<open>Summaries of a run\<close>

text \<open>
  One trial of a GPU block overwrites the sum buffer with the host's \<open>0\<close> and launches the
  kernel; \<open>trials\<close> is the trace of \<open>k\<close> trials from a device state.
\<close>

definition launch ::
  "kernels \<Rightarrow> string \<Rightarrow> u32 \<Rightarrow> u32 \<Rightarrow> u32 list \<times> u32 \<Rightarrow> u32 list \<times> u32" where
  "launch K name gws n d = K name workGroupSize gws n (fst d, 0)"

primrec trials ::
  "kernels \<Rightarrow> string \<Rightarrow> u32 \<Rightarrow> u32 \<Rightarrow> nat \<Rightarrow> u32 list \<times> u32 \<Rightarrow> event list" where
  "trials K name gws n 0 d = []"
| "trials K name gws n (Suc k) d =
     [WriteN 0, Exec name workGroupSize gws 0 (snd (launch K name gws n d)), NextLap]
     @ trials K name gws n k (launch K name gws n d)"

text \<open>The dispatches of a trace (kernel, work-group size, global size), in order.\<close>

fun dispatches :: "event list \<Rightarrow> (string \<times> u32 \<times> u32) list" where
  "dispatches [] = []"
| "dispatches (Exec name w g b c # es) = (name, w, g) # dispatches es"
| "dispatches (e # es) = dispatches es"

text \<open>The comparisons of a trace (expected, actual, line), in order.\<close>

fun expects :: "event list \<Rightarrow> (u32 \<times> u32 \<times> int) list" where
  "expects [] = []"
| "expects (Expect a b l # es) = (a, b, l) # expects es"
| "expects (e # es) = expects es"

text \<open>
  Every dispatch of the trace comes directly after a write of \<open>0\<close> to the sum buffer and
  starts from the accumulator \<open>0\<close>.
\<close>

fun zeroed_before_exec :: "event list \<Rightarrow> bool" where
  "zeroed_before_exec [] = True"
| "zeroed_before_exec (WriteN v # Exec name w g b c # es) =
     (v = 0 \<and> b = 0 \<and> zeroed_before_exec es)"
| "zeroed_before_exec (Exec name w g b c # es) = False"
| "zeroed_before_exec (e # es) = zeroed_before_exec es"

text \<open>
  The seven blocks of \<^verbatim>\<open>main\<close> in program order: the label of the report, the message
  and the line of the check, and the dispatches of a complete block.
\<close>

record strategy =
  lbl_of :: string
  msg_of :: string
  line_of :: int
  launches_of :: "(string \<times> u32 \<times> u32) list"

definition gpu_strategy :: "string \<Rightarrow> int \<Rightarrow> string \<Rightarrow> u32 \<Rightarrow> strategy" where
  "gpu_strategy lbl ln name gws =
     \<lparr>lbl_of = lbl, msg_of = ''GPU result should be consistent!'', line_of = ln,
      launches_of = replicate benchmarkingIters (name, workGroupSize, gws)\<rparr>"

definition cpu_strategy :: strategy where
  "cpu_strategy =
     \<lparr>lbl_of = ''CPU:     '', msg_of = ''CPU result should be consistent!'', line_of = 40,
      launches_of = []\<rparr>"

definition omp_strategy :: strategy where
  "omp_strategy =
     \<lparr>lbl_of = ''CPU OMP: '', msg_of = ''CPU OpenMP result should be consistent!'',
      line_of = 55, launches_of = []\<rparr>"

definition gpu_strategies :: "u32 \<Rightarrow> strategy list" where
  "gpu_strategies g =
     [gpu_strategy ''GPU (Atomic): '' 97 ''globalAtomSum'' g,
      gpu_strategy ''GPU (BatchSum): '' 117 ''BatchSum'' (g div 32),
      gpu_strategy ''GPU (BatchSumCoalesed): '' 137 ''BatchSumCoalesed'' (g div 32),
      gpu_strategy ''GPU (LocalMemSum): '' 156 ''LocalMemSUm'' g,
      gpu_strategy ''GPU (TreeSum): '' 175 ''TreeSum'' g]"

definition strategies :: "u32 \<Rightarrow> strategy list" where
  "strategies g = [cpu_strategy, omp_strategy] @ gpu_strategies g"

definition reports :: "strategy list \<Rightarrow> item list" where
  "reports sts = concat (map (\<lambda>sg. report (lbl_of sg)) sts)"

text \<open>
  The blocks of \<^verbatim>\<open>main\<close> as one list, the upload of the input joined to the first GPU
  block.
\<close>

definition harness_blocks ::
  "(nat \<Rightarrow> schedule) \<Rightarrow> kernels \<Rightarrow> string \<Rightarrow> u32 \<Rightarrow> u32 list \<Rightarrow> u32 \<Rightarrow> u32 \<Rightarrow> (st \<Rightarrow> st) list" where
  "harness_blocks scheds K file n as ref g =
     [cpu_block file as n ref,
      omp_block file as ref scheds,
      (\<lambda>s. gpu_block K ''globalAtomSum'' g 97 ''GPU (Atomic): '' file n ref (s\<lparr>as_buffer := as\<rparr>)),
      gpu_block K ''BatchSum'' (g div 32) 117 ''GPU (BatchSum): '' file n ref,
      gpu_block K ''BatchSumCoalesed'' (g div 32) 137 ''GPU (BatchSumCoalesed): '' file n ref,
      gpu_block K ''LocalMemSUm'' g 156 ''GPU (LocalMemSum): '' file n ref,
      gpu_block K ''TreeSum'' g 175 ''GPU (TreeSum): '' file n ref]"

text \<open>
  How a sequence of statements with checks of one strategy ends from a state without
  exception: every check passes, or it stops at undefined behaviour, or a check fails
  and nothing follows the failing comparison.
\<close>

definition all_equal :: "u32 \<Rightarrow> (u32 \<times> u32 \<times> int) list \<Rightarrow> bool" where
  "all_equal ref es = list_all (\<lambda>(a, b, l). a = ref \<and> b = ref) es"

definition passed :: "u32 \<Rightarrow> strategy \<Rightarrow> st \<Rightarrow> st \<Rightarrow> bool" where
  "passed ref sg s s' =
     (thrown s' = None \<and> cerr s' = cerr s \<and>
      dispatches (events s') = dispatches (events s) @ launches_of sg \<and>
      (all_equal ref (expects (events s)) \<longrightarrow> all_equal ref (expects (events s'))))"

definition faulted :: "u32 \<Rightarrow> st \<Rightarrow> st \<Rightarrow> bool" where
  "faulted ref s s' =
     ((\<exists>f. thrown s' = Some (UB f)) \<and> cout s' = cout s \<and> cerr s' = cerr s \<and>
      dispatches (events s') = dispatches (events s) \<and>
      (all_equal ref (expects (events s)) \<longrightarrow> all_equal ref (expects (events s'))))"

definition failed :: "string \<Rightarrow> u32 \<Rightarrow> strategy \<Rightarrow> st \<Rightarrow> st \<Rightarrow> bool" where
  "failed file ref sg s s' =
     (thrown s' = Some (RuntimeError (msg_of sg)) \<and> cout s' = cout s \<and>
      dispatches (events s') = dispatches (events s) @ launches_of sg \<and>
      (all_equal ref (expects (events s)) \<longrightarrow>
         all_equal ref (expects (butlast (events s')))) \<and>
      (\<exists>b. b \<noteq> ref \<and>
           cerr s' = cerr s @ mismatch_report ref b (msg_of sg) file (line_of sg) \<and>
           events s' \<noteq> [] \<and> last (events s') = Expect ref b (line_of sg)))"

definition iters_outcome :: "string \<Rightarrow> u32 \<Rightarrow> strategy \<Rightarrow> st \<Rightarrow> st \<Rightarrow> bool" where
  "iters_outcome file ref sg s s' =
     ((zeroed_before_exec (events s) \<longrightarrow> zeroed_before_exec (events s')) \<and>
      (passed ref sg s s' \<and> cout s' = cout s \<or> faulted ref s s' \<or>
       failed file ref sg s s'))"

definition block_outcome :: "string \<Rightarrow> u32 \<Rightarrow> strategy \<Rightarrow> st \<Rightarrow> st \<Rightarrow> bool" where
  "block_outcome file ref sg s s' =
     ((zeroed_before_exec (events s) \<longrightarrow> zeroed_before_exec (events s')) \<and>
      (passed ref sg s s' \<and> cout s' = cout s @ report (lbl_of sg) \<or> faulted ref s s' \<or>
       failed file ref sg s s'))"

text \<open>How a run of the blocks of the strategies \<open>sgs\<close> ends: after \<open>k\<close> reports.\<close>

definition run_outcome :: "string \<Rightarrow> u32 \<Rightarrow> strategy list \<Rightarrow> st \<Rightarrow> st \<Rightarrow> bool" where
  "run_outcome file ref sgs s s' =
     ((zeroed_before_exec (events s) \<longrightarrow> zeroed_before_exec (events s')) \<and>
      (\<exists>k \<le> length sgs.
         cout s' = cout s @ reports (take k sgs) \<and>
         (k = length sgs \<and> thrown s' = None \<and> cerr s' = cerr s \<and>
          dispatches (events s') = dispatches (events s) @ concat (map launches_of sgs) \<and>
          (all_equal ref (expects (events s)) \<longrightarrow> all_equal ref (expects (events s')))
          \<or>
          k < length sgs \<and> (\<exists>f. thrown s' = Some (UB f)) \<and> cerr s' = cerr s \<and>
          dispatches (events s')
            = dispatches (events s) @ concat (map launches_of (take k sgs)) \<and>
          (all_equal ref (expects (events s)) \<longrightarrow> all_equal ref (expects (events s')))
          \<or>
          k < length sgs \<and> thrown s' = Some (RuntimeError (msg_of (sgs ! k))) \<and>
          dispatches (events s')
            = dispatches (events s) @ concat (map launches_of (take (Suc k) sgs)) \<and>
          (all_equal ref (expects (events s)) \<longrightarrow>
             all_equal ref (expects (butlast (events s')))) \<and>
          (\<exists>b. b \<noteq> ref \<and>
               cerr s' = cerr s
                 @ mismatch_report ref b (msg_of (sgs ! k)) file (line_of (sgs ! k)) \<and>
               events s' \<noteq> [] \<and> last (events s') = Expect ref b (line_of (sgs ! k))))))"

text \<open>
  One iteration of a CPU block: the sum is computed, compared with the reference sum,
  and the lap is taken. \<open>cpu_iter\<close> and \<open>omp_iter\<close> are its instances.
\<close>

definition checked_iter ::
  "string \<Rightarrow> int \<Rightarrow> string \<Rightarrow> u32 \<Rightarrow> fault + u32 \<Rightarrow> st \<Rightarrow> st" where
  "checked_iter file ln msg ref r =
     run_steps [set_sum r, (\<lambda>s. EXPECT_THE_SAME file ln ref (sum_host s) msg s), nextLap]"



section \<open>Inputs of the concrete runs\<close>

text \<open>
  A generator that always returns its upper bound, a schedule of two threads, kernels
  that add the whole input buffer to the accumulator, kernels among which
  \<^verbatim>\<open>BatchSum\<close> adds nothing, kernels among which \<^verbatim>\<open>TreeSum\<close> adds nothing, and
  kernels whose first launch on the input \<open>[5]\<close> adds \<open>9\<close> and marks the buffer, and whose
  later launches add \<open>5\<close>.
\<close>

definition top_random :: "unit random" where
  "top_random r lo hi = (hi, r)"

definition two_threads :: "nat \<Rightarrow> schedule" where
  "two_threads iter = [[0, 2], [1]]"

definition exact_kernels :: kernels where
  "exact_kernels name w g n = (\<lambda>(a, c). (a, c + sum_list a))"



definition late_kernels :: kernels where
  "late_kernels name w g n =
     (\<lambda>(a, c). if a = [5] then ([5, 0], c + 9) else (a, c + 5))"

section \<open>Rounding up to a multiple of the group size\<close>

lemma round_up_nat_ge:
  assumes "0 < (g::nat)" shows "n \<le> (n + g - 1) div g * g"
proof -
  have "(n + g - 1) div g * g + (n + g - 1) mod g = n + g - 1" by simp
  moreover have "(n + g - 1) mod g < g" using assms by simp
  ultimately show ?thesis by linarith
qed

lemma round_up_nat_least:
  assumes "0 < (g::nat)" "g dvd m" "n \<le> m"
  shows "(n + g - 1) div g * g \<le> m"
proof -
  from assms(2) obtain k where m: "m = k * g" by (metis dvd_def mult.commute)
  have "n + g - 1 < (k + 1) * g" using assms(1,3) m by simp
  then have "(n + g - 1) div g < k + 1" by (rule less_mult_imp_div_less)
  then have "(n + g - 1) div g \<le> k" by simp
  then show ?thesis unfolding m by (rule mult_le_mono1)
qed

lemma unat_round_up:
  fixes n g :: u32
  assumes g: "g \<noteq> 0" and fit: "unat n + unat g - 1 < 2 ^ 32"
  shows "unat ((n + g - 1) div g * g) = (unat n + unat g - 1) div unat g * unat g"
proof -
  have g1: "unat (g - 1) = unat g - 1" using g by (simp add: unat_minus_one)
  have gpos: "0 < unat g" using g by (simp add: unat_gt_0)
  have e: "n + g - 1 = n + (g - 1)" by simp
  have "unat (n + (g - 1)) = unat n + unat (g - 1)"
    using fit g1 gpos by (subst unat_add_lem [THEN iffD1]) simp_all
  then have s: "unat (n + g - 1) = unat n + unat g - 1"
    unfolding e using g1 gpos by linarith
  have d: "unat ((n + g - 1) div g) = (unat n + unat g - 1) div unat g"
    by (simp add: unat_div s)
  have "(unat n + unat g - 1) div unat g * unat g \<le> unat n + unat g - 1" by simp
  then have "(unat n + unat g - 1) div unat g * unat g < 2 ^ 32"
    using fit by (rule le_less_trans)
  then have "unat ((n + g - 1) div g) * unat g < 2 ^ LENGTH(32)" unfolding d by simp
  then have "unat ((n + g - 1) div g * g) = unat ((n + g - 1) div g) * unat g"
    by (rule unat_mult_lem [THEN iffD1])
  then show ?thesis using d by simp
qed

text \<open>
  C2, as stated, at \<open>N = 4294967295\<close> and \<open>G = 128\<close>: \<open>N + G - 1\<close> wraps to \<open>126\<close>, the
  computed global size is \<open>0\<close>, which is below \<open>N\<close>.
\<close>

theorem global_work_size_wraps:
  "global_work_size 4294967295 128 = Inr 0 \<and> (0 :: u32) < 4294967295"
  by (simp add: global_work_size_def)

text \<open>
  C2 (amended): for every element count \<open>N\<close> and every work-group size \<open>G \<ge> 1\<close> with
  \<open>N + G - 1 \<le> UINT_MAX\<close>, the global work size the harness computes is the smallest
  multiple of \<open>G\<close> that is greater than or equal to \<open>N\<close>.
\<close>

theorem global_work_size_least_multiple:
  fixes n g :: u32
  assumes "g \<noteq> 0" and "unat n + unat g - 1 \<le> UINT_MAX"
  shows "\<exists>r. global_work_size n g = Inr r \<and> unat g dvd unat r \<and> unat n \<le> unat r \<and>
            (\<forall>m. unat g dvd m \<and> unat n \<le> m \<longrightarrow> unat r \<le> m)"
proof -
  have gpos: "0 < unat g" using assms(1) by (simp add: unat_gt_0)
  have fit: "unat n + unat g - 1 < 2 ^ 32" using assms(2) by (simp add: UINT_MAX_def)
  let ?r = "(n + g - 1) div g * g"
  have r: "unat ?r = (unat n + unat g - 1) div unat g * unat g"
    using assms(1) fit by (rule unat_round_up)
  have "global_work_size n g = Inr ?r" using assms(1) by (simp add: global_work_size_def)
  moreover have "unat g dvd unat ?r" unfolding r by simp
  moreover have "unat n \<le> unat ?r" unfolding r using gpos by (rule round_up_nat_ge)
  moreover have "\<forall>m. unat g dvd m \<and> unat n \<le> m \<longrightarrow> unat ?r \<le> m"
    unfolding r using gpos round_up_nat_least by blast
  ultimately show ?thesis by blast
qed

theorem global_work_size_least_multiple_witness:
  "workGroupSize \<noteq> 0 \<and> unat n_elems + unat workGroupSize - 1 \<le> UINT_MAX \<and>
   global_work_size n_elems workGroupSize = Inr 100000000 \<and>
   \<not> (\<exists>m. 128 dvd m \<and> 100000000 \<le> m \<and> m < (100000000::nat))"
  using global_work_size_least_multiple [of workGroupSize n_elems]
  by (simp add: global_work_size_def workGroupSize_def n_elems_def UINT_MAX_def)

section \<open>The counted loop\<close>

lemma unat_of_nat_small: "k < 2 ^ 32 \<Longrightarrow> unat (of_nat k :: u32) = k"
  by (simp add: unat_of_nat)

lemma sint_of_nat_small: "k \<le> INT_MAX \<Longrightarrow> sint (of_nat k :: u32) = int k"
  by (simp add: signed_of_nat signed_take_bit_int_eq_self INT_MAX_def)

lemma for_int_upto:
  assumes "unat n \<le> INT_MAX" "k \<le> unat n"
  shows "for_int n body (of_nat k) s = fold_fault body (map of_nat [k..<unat n]) s"
  using assms(2)
proof (induction "unat n - k" arbitrary: k s)
  case 0
  then have k: "k = unat n" by simp
  have "\<not> (of_nat k :: u32) < n" unfolding k by simp
  then show ?case by (subst for_int.simps) (simp add: k)
next
  case (Suc d)
  then have lt: "k < unat n" by simp
  then have k32: "k < 2 ^ 32" using assms(1) by (simp add: INT_MAX_def)
  have u: "unat (of_nat k :: u32) = k" using k32 by (rule unat_of_nat_small)
  have c: "(of_nat k :: u32) < n" using lt u by (simp add: word_less_nat_alt)
  have ne: "(of_nat k :: u32) \<noteq> 2147483647"
  proof
    assume "(of_nat k :: u32) = 2147483647"
    then have "unat (of_nat k :: u32) = 2147483647" by simp
    then show False using u lt assms(1) by (simp add: INT_MAX_def)
  qed
  have up: "[k..<unat n] = k # [Suc k..<unat n]" using lt by (simp add: upt_conv_Cons)
  have d: "d = unat n - Suc k" using Suc.hyps(2) by simp
  have ih: "\<And>s'. for_int n body (of_nat (Suc k)) s'
      = fold_fault body (map of_nat [Suc k..<unat n]) s'"
    using Suc.hyps(1) [OF d] lt by simp
  have suc: "(of_nat k :: u32) + 1 = of_nat (Suc k)" by simp
  show ?case
    by (subst for_int.simps)
      (simp only: c ne up ih suc if_True if_False list.map fold_fault.simps)
qed

lemma at_of_nat:
  assumes "length as \<le> INT_MAX" "k < length as"
  shows "at as (of_nat k) = Inr (as ! k)"
  using assms by (simp add: at_def sint_of_nat_small)

lemma fold_fault_sum:
  assumes "length as \<le> INT_MAX" "k \<le> length as"
  shows "fold_fault (\<lambda>i sum. case at as i of Inl e \<Rightarrow> Inl e | Inr x \<Rightarrow> Inr (sum + x))
           (map of_nat [k..<length as]) s = Inr (fold (\<lambda>x s. s + x) (drop k as) s)"
  using assms(2)
proof (induction "length as - k" arbitrary: k s)
  case 0
  then show ?case by simp
next
  case (Suc d)
  then have lt: "k < length as" by simp
  have up: "[k..<length as] = k # [Suc k..<length as]" using lt by (simp add: upt_conv_Cons)
  have dr: "drop k as = as ! k # drop (Suc k) as" using lt by (simp add: Cons_nth_drop_Suc)
  have d: "d = length as - Suc k" using Suc.hyps(2) by simp
  show ?case
    using Suc.hyps(1) [OF d] lt
    by (simp add: up dr at_of_nat [OF assms(1) lt])
qed

lemma cpu_sum_seq:
  assumes "unat n \<le> INT_MAX" "length as = unat n"
  shows "cpu_sum as n = Inr (seq_sum as)"
proof -
  have "for_int n (\<lambda>i sum. case at as i of Inl e \<Rightarrow> Inl e | Inr x \<Rightarrow> Inr (sum + x))
          (of_nat 0) 0
      = fold_fault (\<lambda>i sum. case at as i of Inl e \<Rightarrow> Inl e | Inr x \<Rightarrow> Inr (sum + x))
          (map of_nat [0..<unat n]) 0"
    using assms(1) by (rule for_int_upto) simp
  also have "\<dots> = Inr (fold (\<lambda>x s. s + x) (drop 0 as) 0)"
    using fold_fault_sum [of as 0 0] assms by simp
  finally show ?thesis by (simp add: cpu_sum_def seq_sum_def)
qed

lemma for_int_overflow:
  assumes "INT_MAX < unat n" "k \<le> INT_MAX"
  shows "\<exists>e. for_int n body (of_nat k) s = Inl e"
  using assms(2)
proof (induction "INT_MAX - k" arbitrary: k s)
  case 0
  then have k: "k = 2147483647" by (simp add: INT_MAX_def)
  have c: "(2147483647 :: u32) < n"
    using assms(1) by (simp add: word_less_nat_alt INT_MAX_def)
  show ?case
    by (subst for_int.simps) (simp add: c k split: sum.splits)
next
  case (Suc d)
  then have lt: "k < INT_MAX" by simp
  then have u: "unat (of_nat k :: u32) = k"
    by (intro unat_of_nat_small) (simp add: INT_MAX_def)
  have c: "(of_nat k :: u32) < n" using lt u assms(1) by (simp add: word_less_nat_alt)
  have ne: "(of_nat k :: u32) \<noteq> 2147483647"
  proof
    assume "(of_nat k :: u32) = 2147483647"
    then have "unat (of_nat k :: u32) = 2147483647" by simp
    then show False using u lt by (simp add: INT_MAX_def)
  qed
  have d: "d = INT_MAX - Suc k" using Suc.hyps(2) by simp
  have ih: "\<And>s'. \<exists>e. for_int n body (of_nat (Suc k)) s' = Inl e"
    using Suc.hyps(1) [OF d] lt by simp
  have suc: "(of_nat k :: u32) + 1 = of_nat (Suc k)" by simp
  show ?case
  proof (cases "body (of_nat k) s")
    case (Inl e)
    then show ?thesis by (subst for_int.simps) (simp add: c)
  next
    case (Inr s')
    then show ?thesis using ih [of s'] by (subst for_int.simps) (simp add: c ne suc)
  qed
qed

lemma for_int_Inr_bound:
  assumes "for_int n body 0 s = Inr s'"
  shows "unat n \<le> INT_MAX"
proof (rule ccontr)
  assume "\<not> unat n \<le> INT_MAX"
  then have "\<exists>e. for_int n body (of_nat 0) s = Inl e"
    by (intro for_int_overflow) simp_all
  then show False using assms by simp
qed

lemma fold_fault_invariant:
  assumes "fold_fault f (map g [k..<m]) s = Inr s'" "I k s" "k \<le> m"
    and "\<And>j t t'. j < m \<Longrightarrow> I j t \<Longrightarrow> f (g j) t = Inr t' \<Longrightarrow> I (Suc j) t'"
  shows "I m s'"
  using assms(1,2,3)
proof (induction "m - k" arbitrary: k s)
  case 0
  then show ?case by simp
next
  case (Suc d)
  then have lt: "k < m" by simp
  have up: "[k..<m] = k # [Suc k..<m]" using lt by (simp add: upt_conv_Cons)
  from Suc.prems(1) obtain t where t: "f (g k) s = Inr t"
    and r: "fold_fault f (map g [Suc k..<m]) t = Inr s'"
    by (auto simp: up split: sum.splits)
  have "I (Suc k) t" by (rule assms(4) [OF lt Suc.prems(2) t])
  moreover have "d = m - Suc k" using Suc.hyps(2) by simp
  ultimately show ?case using Suc.hyps(1) [of "Suc k" t] r lt by simp
qed


lemma generate_body_step:
  assumes "unat n \<le> INT_MAX" "j < unat n" "length as = unat n"
    and "generate_body nxt n (of_nat j) (r, as, ref) = Inr t'"
  shows "\<exists>r' x. t' = (r', as[j := x], ref + x)"
proof -
  have j: "j \<le> INT_MAX" using assms(1,2) by simp
  have n0: "n \<noteq> 0" using assms(2) by auto
  show ?thesis
    using assms(2-4) n0
    by (auto simp: generate_body_def put_def at_def sint_of_nat_small [OF j] Let_def
        split: prod.splits if_splits)
qed

lemma seq_sum_snoc: "seq_sum (xs @ [x]) = seq_sum xs + x"
  by (simp add: seq_sum_def)

lemma generate_result:
  assumes "generate nxt r0 n = Inr (r, as, ref)"
  shows "unat n \<le> INT_MAX \<and> length as = unat n \<and> ref = seq_sum as"
proof -
  have b: "unat n \<le> INT_MAX" using assms unfolding generate_def by (rule for_int_Inr_bound)
  let ?I = "\<lambda>j (t :: 'a \<times> u32 list \<times> u32).
     length (fst (snd t)) = unat n \<and> snd (snd t) = seq_sum (take j (fst (snd t)))"
  have f: "fold_fault (generate_body nxt n) (map of_nat [0..<unat n])
             (r0, replicate (unat n) 0, 0) = Inr (r, as, ref)"
    using assms for_int_upto [OF b, of 0 "generate_body nxt n"] by (simp add: generate_def)
  have "?I (unat n) (r, as, ref)"
  proof (rule fold_fault_invariant [OF f, where I = ?I])
    show "?I 0 (r0, replicate (unat n) 0, 0)" by (simp add: seq_sum_def)
    show "0 \<le> unat n" by simp
  next
    fix j and t t' :: "'a \<times> u32 list \<times> u32"
    assume j: "j < unat n" and i: "?I j t" and s: "generate_body nxt n (of_nat j) t = Inr t'"
    obtain r1 as1 ref1 where t: "t = (r1, as1, ref1)" by (cases t) auto
    from i t have l: "length as1 = unat n" and rs: "ref1 = seq_sum (take j as1)" by simp_all
    from generate_body_step [OF b j l s [unfolded t]]
    obtain r' x where t': "t' = (r', as1[j := x], ref1 + x)" by blast
    have "take (Suc j) (as1[j := x]) = take j as1 @ [x]"
      using j l by (simp add: take_Suc_conv_app_nth)
    then show "?I (Suc j) t'" using l rs by (simp add: t' seq_sum_snoc)
  qed
  then show ?thesis using b by simp
qed

section \<open>Input generation\<close>

lemma generate_body_exact:
  assumes "unat n \<le> INT_MAX" "j < unat n" "length as = unat n"
  shows "generate_body nxt n (of_nat j) (r, as, ref)
     = Inr (snd (nxt r 0 (sint (4294967295 div n :: u32))),
            as[j := word_of_int (fst (nxt r 0 (sint (4294967295 div n :: u32))))],
            ref + word_of_int (fst (nxt r 0 (sint (4294967295 div n :: u32)))))"
proof -
  have j: "j \<le> INT_MAX" using assms(1,2) by simp
  have n0: "n \<noteq> 0" using assms(2) by auto
  show ?thesis
    using assms(2,3) n0
    by (simp add: generate_body_def put_def at_def sint_of_nat_small [OF j] Let_def
        split: prod.splits)
qed

lemma fold_fault_total:
  assumes "I k s" "k \<le> m"
    and "\<And>j t. j < m \<Longrightarrow> I j t \<Longrightarrow> \<exists>t'. f (g j) t = Inr t' \<and> I (Suc j) t'"
  shows "\<exists>s'. fold_fault f (map g [k..<m]) s = Inr s' \<and> I m s'"
  using assms(1,2)
proof (induction "m - k" arbitrary: k s)
  case 0
  then show ?case by simp
next
  case (Suc d)
  then have lt: "k < m" by simp
  have up: "[k..<m] = k # [Suc k..<m]" using lt by (simp add: upt_conv_Cons)
  from assms(3) [OF lt Suc.prems(1)] obtain t where t: "f (g k) s = Inr t" "I (Suc k) t"
    by blast
  have "d = m - Suc k" using Suc.hyps(2) by simp
  from Suc.hyps(1) [OF this t(2)] lt
  obtain s' where "fold_fault f (map g [Suc k..<m]) t = Inr s'" "I m s'" by auto
  then show ?case using t(1) by (simp add: up)
qed

lemma sint_quotient:
  assumes "2 \<le> unat (n :: u32)"
  shows "sint (4294967295 div n :: u32) = int (UINT_MAX div unat n)"
proof -
  have u: "unat (4294967295 div n :: u32) = UINT_MAX div unat n"
    by (simp add: unat_div UINT_MAX_def)
  have "UINT_MAX div unat n \<le> UINT_MAX div 2"
    using assms by (intro div_le_mono2) simp_all
  then have le: "UINT_MAX div unat n \<le> INT_MAX" by (simp add: UINT_MAX_def INT_MAX_def)
  have "(4294967295 div n :: u32) = of_nat (unat (4294967295 div n :: u32))" by simp
  then have "sint (4294967295 div n :: u32) = sint (of_nat (UINT_MAX div unat n) :: u32)"
    using u by simp
  then show ?thesis using le by (simp add: sint_of_nat_small)
qed

lemma unat_word_of_int_bounded:
  assumes "0 \<le> v" "v \<le> int q" "q \<le> UINT_MAX"
  shows "unat (word_of_int v :: u32) \<le> q"
proof -
  have "v < 2 ^ 32" using assms by (simp add: UINT_MAX_def)
  then have "unat (word_of_int v :: u32) = nat v"
    using assms(1) by (simp add: unsigned_of_int take_bit_int_eq_self)
  then show ?thesis using assms(2) by simp
qed

lemma unat_le_UINT_MAX: "unat (x :: u32) \<le> UINT_MAX"
  using unsigned_less [of x, where 'a = nat] by (simp add: UINT_MAX_def)

lemma generated_element_bounded:
  assumes "bounded_random nxt" "n \<noteq> 0"
  shows "unat (word_of_int (fst (nxt r 0 (sint (4294967295 div n :: u32)))) :: u32)
           \<le> UINT_MAX div unat n"
proof (cases "2 \<le> unat n")
  case True
  let ?q = "UINT_MAX div unat n"
  have hi: "sint (4294967295 div n :: u32) = int ?q" using True by (rule sint_quotient)
  have "0 \<le> fst (nxt r 0 (int ?q)) \<and> fst (nxt r 0 (int ?q)) \<le> int ?q"
    using assms(1) by (simp add: bounded_random_def)
  moreover have "?q \<le> UINT_MAX" by simp
  ultimately show ?thesis unfolding hi by (intro unat_word_of_int_bounded) simp_all
next
  case False
  moreover have "0 < unat n" using assms(2) by (simp add: unat_gt_0)
  ultimately have "unat n = 1" by linarith
  then show ?thesis by (simp add: unat_le_UINT_MAX)
qed


lemma sum_list_bounded:
  assumes "list_all (\<lambda>x. f x \<le> (q::nat)) xs"
  shows "sum_list (map f xs) \<le> length xs * q"
  using assms by (induction xs) auto

lemma unat_fold_add:
  "unat (fold (\<lambda>x s. s + x) xs (s :: u32)) = (unat s + sum_list (map unat xs)) mod 2 ^ 32"
proof (induction xs arbitrary: s)
  case Nil
  then show ?case using unsigned_less [of s, where 'a = nat] by simp
next
  case (Cons x xs)
  have "(unat (s + x) + sum_list (map unat xs)) mod 2 ^ 32
      = ((unat s + unat x) mod 2 ^ 32 + sum_list (map unat xs)) mod 2 ^ 32"
    by (simp add: unat_word_ariths)
  also have "\<dots> = (unat s + unat x + sum_list (map unat xs)) mod 2 ^ 32"
    by (rule mod_add_left_eq)
  finally show ?case using Cons.IH [of "s + x"] by (simp add: add.assoc)
qed

lemma unat_seq_sum:
  assumes "sum_list (map unat as) \<le> UINT_MAX"
  shows "unat (seq_sum as) = sum_list (map unat as)"
  using assms by (simp add: seq_sum_def unat_fold_add UINT_MAX_def)

lemma generate_bounded:
  assumes "bounded_random nxt" "unat n \<le> INT_MAX"
  shows "\<exists>r as. generate nxt r0 n = Inr (r, as, seq_sum as) \<and> length as = unat n \<and>
           list_all (\<lambda>x. unat x \<le> UINT_MAX div unat n) as"
proof -
  let ?I = "\<lambda>j (t :: 'a \<times> u32 list \<times> u32).
     length (fst (snd t)) = unat n \<and>
     list_all (\<lambda>x. unat x \<le> UINT_MAX div unat n) (take j (fst (snd t)))"
  have "\<exists>s'. fold_fault (generate_body nxt n) (map of_nat [0..<unat n])
               (r0, replicate (unat n) 0, 0) = Inr s' \<and> ?I (unat n) s'"
  proof (rule fold_fault_total [where I = ?I])
    show "?I 0 (r0, replicate (unat n) 0, 0)" by simp
    show "0 \<le> unat n" by simp
  next
    fix j and t :: "'a \<times> u32 list \<times> u32"
    assume j: "j < unat n" and i: "?I j t"
    obtain r1 as1 ref1 where t: "t = (r1, as1, ref1)" by (cases t) auto
    from i t have l: "length as1 = unat n"
      and b: "list_all (\<lambda>x. unat x \<le> UINT_MAX div unat n) (take j as1)" by simp_all
    have n0: "n \<noteq> 0" using j by auto
    let ?x = "word_of_int (fst (nxt r1 0 (sint (4294967295 div n :: u32)))) :: u32"
    have x: "unat ?x \<le> UINT_MAX div unat n"
      using assms(1) n0 by (rule generated_element_bounded)
    have tk: "take (Suc j) (as1[j := ?x]) = take j as1 @ [?x]"
      using j l by (simp add: take_Suc_conv_app_nth)
    show "\<exists>t'. generate_body nxt n (of_nat j) t = Inr t' \<and> ?I (Suc j) t'"
      unfolding t generate_body_exact [OF assms(2) j l]
      using l b x by (simp add: tk)
  qed
  then obtain r as ref where
    f: "fold_fault (generate_body nxt n) (map of_nat [0..<unat n])
          (r0, replicate (unat n) 0, 0) = Inr (r, as, ref)"
    and l: "length as = unat n"
    and b: "list_all (\<lambda>x. unat x \<le> UINT_MAX div unat n) as"
    by auto
  have g: "generate nxt r0 n = Inr (r, as, ref)"
    using f for_int_upto [OF assms(2), of 0 "generate_body nxt n"] by (simp add: generate_def)
  from generate_result [OF g] have "ref = seq_sum as" by simp
  then show ?thesis using g l b by blast
qed

lemma quotient_sum_fits:
  assumes "list_all (\<lambda>x. unat x \<le> UINT_MAX div n) as" "length as = n"
  shows "sum_list (map unat as) \<le> UINT_MAX"
proof -
  have "sum_list (map unat as) \<le> length as * (UINT_MAX div n)"
    using assms(1) by (rule sum_list_bounded)
  also have "\<dots> \<le> UINT_MAX" unfolding assms(2) by simp
  finally show ?thesis .
qed

text \<open>
  C8: when \<^verbatim>\<open>FastRandom::next\<close> keeps to its bounds, every generated element is at most
  \<open>UINT_MAX / N\<close>, the true sum of the \<open>N\<close> generated elements is at most \<open>UINT_MAX\<close>, and
  the reference sum accumulated with wrap-around is that true sum.
\<close>

theorem reference_sum_does_not_wrap:
  assumes "bounded_random nxt" and "unat n \<le> INT_MAX"
  shows "\<exists>r as reference_sum.
           generate nxt r0 n = Inr (r, as, reference_sum) \<and> length as = unat n \<and>
           list_all (\<lambda>x. unat x \<le> UINT_MAX div unat n) as \<and>
           sum_list (map unat as) \<le> UINT_MAX \<and>
           unat reference_sum = sum_list (map unat as)"
proof -
  from generate_bounded [OF assms] obtain r as where
    g: "generate nxt r0 n = Inr (r, as, seq_sum as)" and l: "length as = unat n"
    and b: "list_all (\<lambda>x. unat x \<le> UINT_MAX div unat n) as"
    by blast
  have f: "sum_list (map unat as) \<le> UINT_MAX" using b l by (rule quotient_sum_fits)
  then have "unat (seq_sum as) = sum_list (map unat as)" by (rule unat_seq_sum)
  then show ?thesis using g l b f by blast
qed

theorem reference_sum_does_not_wrap_witness:
  "bounded_random (\<lambda>(r :: unit) lo hi. (hi, r)) \<and> unat (3 :: u32) \<le> INT_MAX \<and>
   generate (\<lambda>(r :: unit) lo hi. (hi, r)) () 3
     = Inr ((), [1431655765, 1431655765, 1431655765], 4294967295) \<and>
   unat (4294967295 :: u32) = sum_list (map unat [1431655765, 1431655765, 1431655765 :: u32])"
proof -
  have b: "bounded_random (\<lambda>(r :: unit) lo hi. (hi, r))" by (simp add: bounded_random_def)
  have n: "unat (3 :: u32) \<le> INT_MAX" by (simp add: INT_MAX_def)
  have g: "generate (\<lambda>(r :: unit) lo hi. (hi, r)) () 3
     = Inr ((), [1431655765, 1431655765, 1431655765], 4294967295)"
    by code_simp
  from reference_sum_does_not_wrap [OF b n, of "()"] g b n show ?thesis by auto
qed

lemma fold_fault_count:
  "fold_fault (\<lambda>i k. Inr (Suc k)) xs c = Inr (c + length xs)"
  by (induction xs arbitrary: c) simp_all

text \<open>
  C10: a harness loop \<^verbatim>\<open>for (int i = 0; i < n; ++i)\<close> over an element count \<open>n\<close> that does
  not exceed \<^verbatim>\<open>INT_MAX\<close>, as \<open>n = 100000000\<close> does not, ends after exactly \<open>n\<close> runs of its
  body, at \<open>i = 0, \<dots>, n - 1\<close> in this order and without signed overflow, and every
  access \<^verbatim>\<open>as[i]\<close> to a vector of \<open>n\<close> elements made there is within bounds.
\<close>

theorem harness_loops_terminate_in_bounds:
  assumes "unat n \<le> INT_MAX" and "length as = unat n"
  shows "for_int n body 0 s = fold_fault body (map of_nat [0..<unat n]) s \<and>
         for_int n (\<lambda>i k. Inr (Suc k)) 0 0 = Inr (unat n) \<and>
         list_all (\<lambda>k. at as (of_nat k) = Inr (as ! k) \<and>
                        put as (of_nat k) x = Inr (as[k := x])) [0..<unat n] \<and>
         cpu_sum as n = Inr (seq_sum as)"
proof -
  have a: "for_int n body 0 s = fold_fault body (map of_nat [0..<unat n]) s"
    using for_int_upto [OF assms(1), of 0 body s] by simp
  have "for_int n (\<lambda>i k. Inr (Suc k)) 0 (0::nat)
      = fold_fault (\<lambda>(i :: s32) k. Inr (Suc k)) (map of_nat [0..<unat n]) 0"
    using for_int_upto [OF assms(1), of 0 "\<lambda>i k. Inr (Suc k)" "0::nat"] by simp
  then have b: "for_int n (\<lambda>i k. Inr (Suc k)) 0 0 = Inr (unat n)"
    by (simp add: fold_fault_count)
  have c: "list_all (\<lambda>k. at as (of_nat k) = Inr (as ! k) \<and>
                        put as (of_nat k) x = Inr (as[k := x])) [0..<unat n]"
    using assms by (simp add: list_all_iff at_def put_def sint_of_nat_small)
  have d: "cpu_sum as n = Inr (seq_sum as)" using assms by (rule cpu_sum_seq)
  from a b c d show ?thesis by simp
qed

theorem harness_loops_terminate_in_bounds_witness:
  "unat n_elems \<le> INT_MAX \<and> length (replicate (unat n_elems) (0 :: u32)) = unat n_elems \<and>
   for_int n_elems (\<lambda>i k. Inr (Suc k)) 0 0 = Inr (100000000 :: nat) \<and>
   cpu_sum (replicate (unat n_elems) 0) n_elems = Inr (seq_sum (replicate (unat n_elems) 0))"
proof -
  have n: "unat n_elems \<le> INT_MAX" by (simp add: n_elems_def INT_MAX_def)
  have l: "length (replicate (unat n_elems) (0 :: u32)) = unat n_elems" by simp
  have v: "unat n_elems = 100000000" by (simp add: n_elems_def)
  note t = harness_loops_terminate_in_bounds
    [OF n l, where body = "\<lambda>i k. Inr (Suc k)" and s = "0 :: nat" and x = 0]
  have "for_int n_elems (\<lambda>i k. Inr (Suc k)) 0 0 = Inr (unat n_elems)"
    by (rule t [THEN conjunct2, THEN conjunct1])
  moreover have "cpu_sum (replicate (unat n_elems) 0) n_elems
           = Inr (seq_sum (replicate (unat n_elems) 0))"
    by (rule t [THEN conjunct2, THEN conjunct2, THEN conjunct2])
  ultimately show ?thesis using n l unfolding v by blast
qed

section \<open>The OpenMP reduction is the sequential sum\<close>

lemma seq_sum_sum_list: "seq_sum as = sum_list as"
proof -
  have "fold (\<lambda>x s. s + x) as s = s + sum_list as" for s :: u32
    by (induction as arbitrary: s) (simp_all add: add.assoc)
  then show ?thesis by (simp add: seq_sum_def)
qed

lemma thread_sum_fold:
  assumes "\<forall>i \<in> set its. i < length as"
  shows "fold_fault (\<lambda>i s. if i < length as then Inr (s + as ! i) else Inl OutOfBounds) its s
           = Inr (s + sum_list (map ((!) as) its))"
  using assms by (induction its arbitrary: s) (simp_all add: add.assoc)

lemma thread_sum_in_range:
  assumes "\<forall>i \<in> set its. i < length as"
  shows "thread_sum as its = Inr (sum_list (map ((!) as) its))"
  using thread_sum_fold [OF assms, of 0] by (simp add: thread_sum_def)

lemma omp_sum_fold:
  assumes "\<forall>i \<in> set (concat sched). i < length as"
  shows "fold_fault (\<lambda>its s. case thread_sum as its of Inl e \<Rightarrow> Inl e | Inr p \<Rightarrow> Inr (s + p))
           sched s = Inr (s + sum_list (map ((!) as) (concat sched)))"
  using assms
proof (induction sched arbitrary: s)
  case Nil
  then show ?case by simp
next
  case (Cons its sched)
  have "thread_sum as its = Inr (sum_list (map ((!) as) its))"
    using Cons.prems by (intro thread_sum_in_range) simp
  then show ?case using Cons by (simp add: add.assoc)
qed

lemma sum_list_permuted:
  fixes f :: "nat \<Rightarrow> u32"
  assumes "mset xs = mset ys"
  shows "sum_list (map f xs) = sum_list (map f ys)"
proof -
  have "sum_list (map f xs) = sum_mset (image_mset f (mset xs))"
    by (simp flip: sum_mset_sum_list)
  also have "\<dots> = sum_mset (image_mset f (mset ys))" using assms by simp
  also have "\<dots> = sum_list (map f ys)" by (simp flip: sum_mset_sum_list)
  finally show ?thesis .
qed

lemma valid_schedule_mset:
  assumes "valid_schedule n sched"
  shows "mset (concat sched) = mset [0..<n]"
proof -
  have "mset (sort (concat sched)) = mset (concat sched)" by (rule mset_sort)
  moreover have "sort (concat sched) = [0..<n]" using assms by (simp add: valid_schedule_def)
  ultimately show ?thesis by (simp only:)
qed

lemma omp_sum_valid:
  assumes "valid_schedule (length as) sched"
  shows "omp_sum as sched = Inr (seq_sum as)"
proof -
  note m = valid_schedule_mset [OF assms]
  have "set (concat sched) = set [0..<length as]" using m by (rule mset_eq_setD)
  then have r: "\<forall>i \<in> set (concat sched). i < length as" by simp
  have "sum_list (map ((!) as) (concat sched)) = sum_list (map ((!) as) [0..<length as])"
    using m by (rule sum_list_permuted)
  also have "\<dots> = sum_list as" by (simp add: map_nth)
  finally show ?thesis
    using omp_sum_fold [OF r, of 0] by (simp add: omp_sum_def seq_sum_sum_list)
qed

text \<open>
  C9: for every list of unsigned integers and every schedule that gives each index of the
  list to exactly one thread, whatever the order inside a thread and the order in which
  the threads' sums are combined, the OpenMP reduction yields exactly the strictly
  sequential left-to-right sum modulo \<open>2 ^ 32\<close>, which is the output of the sequential loop.
\<close>

theorem omp_reduction_equals_sequential:
  assumes "valid_schedule (length as) sched"
  shows "omp_sum as sched = Inr (seq_sum as) \<and>
         (length as = unat n \<and> unat n \<le> INT_MAX \<longrightarrow> omp_sum as sched = cpu_sum as n)"
  using omp_sum_valid [OF assms] by (simp add: cpu_sum_seq)

theorem omp_reduction_equals_sequential_witness:
  "valid_schedule (length [4294967295, 2, 3 :: u32]) [[2], [1, 0]] \<and>
   length [4294967295, 2, 3 :: u32] = unat (3 :: u32) \<and> unat (3 :: u32) \<le> INT_MAX \<and>
   omp_sum [4294967295, 2, 3] [[2], [1, 0]] = Inr 4 \<and>
   cpu_sum [4294967295, 2, 3] 3 = Inr 4"
proof -
  have v: "valid_schedule (length [4294967295, 2, 3 :: u32]) [[2], [1, 0]]" by code_simp
  have s: "seq_sum [4294967295, 2, 3] = 4" by (simp add: seq_sum_def)
  have n: "length [4294967295, 2, 3 :: u32] = unat (3 :: u32)" "unat (3 :: u32) \<le> INT_MAX"
    by (simp_all add: INT_MAX_def)
  from omp_reduction_equals_sequential [OF v, of 3] s n v show ?thesis by auto
qed

section \<open>Traces\<close>

lemma dispatches_append: "dispatches (xs @ ys) = dispatches xs @ dispatches ys"
  by (induction xs rule: dispatches.induct) simp_all

lemma expects_append: "expects (xs @ ys) = expects xs @ expects ys"
  by (induction xs rule: expects.induct) simp_all

lemma zeroed_append:
  "zeroed_before_exec xs \<Longrightarrow> zeroed_before_exec ys \<Longrightarrow> zeroed_before_exec (xs @ ys)"
proof (induction xs rule: zeroed_before_exec.induct)
  case 1
  then show ?case by simp
next
  case (2 v name w g b c es)
  then show ?case by simp
next
  case (3 name w g b c es)
  then show ?case by simp
qed (cases ys rule: zeroed_before_exec.cases; simp)+

lemma dispatches_trials:
  "dispatches (trials K name gws n k d) = replicate k (name, workGroupSize, gws)"
  by (induction k arbitrary: d) simp_all

lemma expects_trials: "expects (trials K name gws n k d) = []"
  by (induction k arbitrary: d) simp_all

lemma zeroed_trials: "zeroed_before_exec (trials K name gws n k d)"
  by (induction k arbitrary: d) simp_all

section \<open>The blocks of the harness\<close>

lemma run_steps_append:
  "thrown s = None \<Longrightarrow>
   run_steps (fs @ gs) s =
     (if thrown (run_steps fs s) = None then run_steps gs (run_steps fs s) else run_steps fs s)"
  by (induction fs arbitrary: s) (auto simp: Let_def)

lemma gpu_iter_result:
  assumes "thrown s = None" "sum_host s = 0"
  shows "gpu_iter K name gws n s =
     s\<lparr>as_buffer := fst (launch K name gws n (as_buffer s, sum_buffer s)),
       sum_buffer := snd (launch K name gws n (as_buffer s, sum_buffer s)),
       events := events s @ trials K name gws n 1 (as_buffer s, sum_buffer s)\<rparr>"
  using assms
  by (simp add: gpu_iter_def writeN_sum_def exec_def nextLap_def launch_def Let_def
      split: prod.splits)

lemma gpu_iters_result:
  assumes "thrown s = None" "sum_host s = 0"
  shows "run_steps (replicate k (gpu_iter K name gws n)) s =
     s\<lparr>as_buffer := fst ((launch K name gws n ^^ k) (as_buffer s, sum_buffer s)),
       sum_buffer := snd ((launch K name gws n ^^ k) (as_buffer s, sum_buffer s)),
       events := events s @ trials K name gws n k (as_buffer s, sum_buffer s)\<rparr>"
  using assms
proof (induction k arbitrary: s)
  case 0
  then show ?case by simp
next
  case (Suc k)
  let ?s1 = "gpu_iter K name gws n s"
  have s1: "?s1 = s\<lparr>as_buffer := fst (launch K name gws n (as_buffer s, sum_buffer s)),
       sum_buffer := snd (launch K name gws n (as_buffer s, sum_buffer s)),
       events := events s @ trials K name gws n 1 (as_buffer s, sum_buffer s)\<rparr>"
    using Suc.prems by (rule gpu_iter_result)
  have t: "thrown ?s1 = None" and h: "sum_host ?s1 = 0"
    using Suc.prems by (simp_all add: s1)
  have "run_steps (replicate (Suc k) (gpu_iter K name gws n)) s
      = run_steps (replicate k (gpu_iter K name gws n)) ?s1"
    using t by (simp add: Let_def)
  also note Suc.IH [OF t h]
  finally show ?case
    by (simp add: s1 funpow_swap1)
qed

lemma gpu_block_result:
  assumes "thrown s = None"
  shows "gpu_block K name gws ln lbl file n ref s =
    (let d = (launch K name gws n ^^ benchmarkingIters) (as_buffer s, sum_buffer s);
         base = s\<lparr>sum_host := snd d, as_buffer := fst d, sum_buffer := snd d,
                  events := events s
                    @ trials K name gws n benchmarkingIters (as_buffer s, sum_buffer s)
                    @ [ReadN (snd d), Expect ref (snd d) ln]\<rparr>
     in if ref = snd d then base\<lparr>cout := cout s @ report lbl\<rparr>
        else base\<lparr>cerr := cerr s
                      @ mismatch_report ref (snd d) ''GPU result should be consistent!'' file ln,
                    thrown := Some (RuntimeError ''GPU result should be consistent!'')\<rparr>)"
proof -
  let ?s0 = "s\<lparr>sum_host := 0\<rparr>"
  have t0: "thrown ?s0 = None" and h0: "sum_host ?s0 = 0" using assms by simp_all
  note loop = gpu_iters_result [OF t0 h0, of benchmarkingIters K name gws n]
  have t1: "thrown (run_steps (replicate benchmarkingIters (gpu_iter K name gws n)) ?s0) = None"
    unfolding loop using assms by simp
  show ?thesis
    unfolding gpu_block_def
    apply (simp only: append_Cons append_Nil run_steps.simps Let_def t0 if_True)
    apply (simp only: run_steps_append [OF t0] t1 if_True)
    apply (simp add: loop assms readN_sum_def EXPECT_THE_SAME_def raiseFail_def
        print_report_def Let_def)
    done
qed

lemma gpu_block_outcome:
  assumes "thrown s = None"
  shows "block_outcome file ref (gpu_strategy lbl ln name gws) s
           (gpu_block K name gws ln lbl file n ref s)"
proof -
  let ?d = "(launch K name gws n ^^ benchmarkingIters) (as_buffer s, sum_buffer s)"
  let ?T = "trials K name gws n benchmarkingIters (as_buffer s, sum_buffer s)"
  have z: "zeroed_before_exec (events s) \<Longrightarrow>
           zeroed_before_exec (events s @ ?T @ [ReadN (snd ?d), Expect ref (snd ?d) ln])"
    by (intro zeroed_append zeroed_trials) simp_all
  show ?thesis
  proof (cases "ref = snd ?d")
    case True
    then show ?thesis
      using z assms
      by (simp add: gpu_block_result [OF assms] block_outcome_def passed_def Let_def
          gpu_strategy_def dispatches_append expects_append dispatches_trials expects_trials
          all_equal_def butlast_append)
  next
    case False
    then show ?thesis
      using z assms
      by (simp add: gpu_block_result [OF assms] block_outcome_def failed_def Let_def
          gpu_strategy_def dispatches_append expects_append dispatches_trials expects_trials
          all_equal_def butlast_append)
  qed
qed

lemma zeroed_snoc_expect:
  "zeroed_before_exec es \<Longrightarrow> zeroed_before_exec (es @ [Expect a b l])"
  by (rule zeroed_append) simp_all

lemma zeroed_snoc_lap:
  "zeroed_before_exec es \<Longrightarrow> zeroed_before_exec (es @ [NextLap])"
  by (rule zeroed_append) simp_all

lemma zeroed_snoc_expect_lap:
  "zeroed_before_exec es \<Longrightarrow> zeroed_before_exec (es @ [Expect a b l, NextLap])"
  by (rule zeroed_append) simp_all

lemma checked_iter_outcome:
  assumes "thrown s = None" "launches_of sg = []"
  shows "iters_outcome file ref sg s
           (run_steps
              [set_sum r,
               (\<lambda>s. EXPECT_THE_SAME file (line_of sg) ref (sum_host s) (msg_of sg) s),
               nextLap] s)"
proof (cases r)
  case (Inl e)
  then show ?thesis
    using assms by (simp add: iters_outcome_def faulted_def set_sum_def Let_def)
next
  case (Inr v)
  show ?thesis
  proof (cases "v = ref")
    case True
    then show ?thesis
      using assms Inr
      by (simp add: iters_outcome_def passed_def set_sum_def Let_def EXPECT_THE_SAME_def
          raiseFail_def nextLap_def dispatches_append expects_append
          zeroed_snoc_expect_lap all_equal_def)
  next
    case False
    then have "ref \<noteq> v" by simp
    then show ?thesis
      using assms Inr False
      by (simp add: iters_outcome_def failed_def set_sum_def Let_def EXPECT_THE_SAME_def
          raiseFail_def nextLap_def dispatches_append expects_append zeroed_snoc_expect
          all_equal_def)
  qed
qed

lemma cpu_iter_outcome:
  assumes "thrown s = None"
  shows "iters_outcome file ref cpu_strategy s (cpu_iter file as n ref s)"
  using checked_iter_outcome [OF assms, where sg = cpu_strategy and r = "cpu_sum as n"]
  by (simp add: cpu_iter_def cpu_strategy_def)

lemma omp_iter_outcome:
  assumes "thrown s = None"
  shows "iters_outcome file ref omp_strategy s (omp_iter file as ref sched s)"
  using checked_iter_outcome [OF assms, where sg = omp_strategy and r = "omp_sum as sched"]
  by (simp add: omp_iter_def omp_strategy_def)

lemma iters_outcome_refl:
  assumes "thrown s = None" "launches_of sg = []"
  shows "iters_outcome file ref sg s s"
  using assms by (simp add: iters_outcome_def passed_def)

lemma iters_outcome_trans:
  assumes "launches_of sg = []"
    and "iters_outcome file ref sg s s1" "thrown s1 = None"
    and "iters_outcome file ref sg s1 s2"
  shows "iters_outcome file ref sg s s2"
proof -
  from assms(2,3) have p1: "passed ref sg s s1" and c1: "cout s1 = cout s"
    and z1: "zeroed_before_exec (events s) \<longrightarrow> zeroed_before_exec (events s1)"
    by (auto simp: iters_outcome_def faulted_def failed_def)
  from p1 have e1: "cerr s1 = cerr s"
    "dispatches (events s1) = dispatches (events s)"
    "all_equal ref (expects (events s)) \<longrightarrow> all_equal ref (expects (events s1))"
    using assms(1) by (simp_all add: passed_def)
  from assms(4) have z2: "zeroed_before_exec (events s1) \<longrightarrow> zeroed_before_exec (events s2)"
    and o2: "passed ref sg s1 s2 \<and> cout s2 = cout s1 \<or> faulted ref s1 s2 \<or>
             failed file ref sg s1 s2"
    by (simp_all add: iters_outcome_def)
  from o2 have "passed ref sg s s2 \<and> cout s2 = cout s \<or> faulted ref s s2 \<or>
                failed file ref sg s s2"
  proof (elim disjE conjE)
    assume "passed ref sg s1 s2" and "cout s2 = cout s1"
    then show ?thesis using e1 c1 by (simp add: passed_def)
  next
    assume "faulted ref s1 s2"
    then show ?thesis using e1 c1 by (simp add: faulted_def)
  next
    assume "failed file ref sg s1 s2"
    then show ?thesis using e1 c1 by (simp add: failed_def)
  qed
  then show ?thesis using z1 z2 by (simp add: iters_outcome_def)
qed

lemma iters_outcome_steps:
  assumes "launches_of sg = []"
    and "\<And>f s. f \<in> set fs \<Longrightarrow> thrown s = None \<Longrightarrow> iters_outcome file ref sg s (f s)"
    and "thrown s = None"
  shows "iters_outcome file ref sg s (run_steps fs s)"
  using assms(2,3)
proof (induction fs arbitrary: s)
  case Nil
  then show ?case using assms(1) by (simp add: iters_outcome_refl)
next
  case (Cons f fs)
  have o1: "iters_outcome file ref sg s (f s)"
    by (rule Cons.prems(1)) (simp_all add: Cons.prems(2))
  show ?case
  proof (cases "thrown (f s) = None")
    case True
    have "iters_outcome file ref sg (f s) (run_steps fs (f s))"
    proof (rule Cons.IH)
      fix g and t :: st
      assume "g \<in> set fs" "thrown t = None"
      then show "iters_outcome file ref sg t (g t)"
        by (intro Cons.prems(1)) simp_all
    qed (rule True)
    with assms(1) o1 True have "iters_outcome file ref sg s (run_steps fs (f s))"
      by (rule iters_outcome_trans)
    then show ?thesis using True by (simp add: Let_def)
  next
    case False
    then show ?thesis using o1 by (auto simp: Let_def)
  qed
qed

lemma passed_cout_update: "passed ref sg s (s'\<lparr>cout := c\<rparr>) = passed ref sg s s'"
  by (simp add: passed_def)

lemma block_outcome_iters:
  assumes "thrown s = None" "iters_outcome file ref sg s (run_steps fs s)"
  shows "block_outcome file ref sg s (run_steps (fs @ [print_report (lbl_of sg)]) s)"
proof -
  let ?s1 = "run_steps fs s"
  from assms(2) have z: "zeroed_before_exec (events s) \<longrightarrow> zeroed_before_exec (events ?s1)"
    and o: "passed ref sg s ?s1 \<and> cout ?s1 = cout s \<or> faulted ref s ?s1 \<or>
            failed file ref sg s ?s1"
    by (simp_all add: iters_outcome_def)
  show ?thesis
  proof (cases "thrown ?s1 = None")
    case True
    then have r: "run_steps (fs @ [print_report (lbl_of sg)]) s
        = ?s1\<lparr>cout := cout ?s1 @ report (lbl_of sg)\<rparr>"
      using assms(1) by (simp add: run_steps_append print_report_def Let_def)
    from True o have p: "passed ref sg s ?s1" and c: "cout ?s1 = cout s"
      by (auto simp: faulted_def failed_def)
    show ?thesis
      unfolding r block_outcome_def using z p c by (simp add: passed_cout_update)
  next
    case False
    then have r: "run_steps (fs @ [print_report (lbl_of sg)]) s = ?s1"
      using assms(1) by (auto simp: run_steps_append)
    from False o have "faulted ref s ?s1 \<or> failed file ref sg s ?s1"
      by (auto simp: passed_def)
    then show ?thesis
      unfolding r block_outcome_def using z by blast
  qed
qed

lemma cpu_block_outcome:
  assumes "thrown s = None"
  shows "block_outcome file ref cpu_strategy s (cpu_block file as n ref s)"
proof -
  have l: "launches_of cpu_strategy = []" by (simp add: cpu_strategy_def)
  have "iters_outcome file ref cpu_strategy s
          (run_steps (replicate benchmarkingIters (cpu_iter file as n ref)) s)"
    using l _ assms by (rule iters_outcome_steps) (auto simp: cpu_iter_outcome)
  from block_outcome_iters [OF assms this] show ?thesis
    by (simp add: cpu_block_def cpu_strategy_def)
qed

lemma omp_block_outcome:
  assumes "thrown s = None"
  shows "block_outcome file ref omp_strategy s (omp_block file as ref scheds s)"
proof -
  have l: "launches_of omp_strategy = []" by (simp add: omp_strategy_def)
  have "iters_outcome file ref omp_strategy s
          (run_steps (map (\<lambda>iter. omp_iter file as ref (scheds iter)) [0..<benchmarkingIters]) s)"
    using l _ assms by (rule iters_outcome_steps) (auto simp: omp_iter_outcome)
  from block_outcome_iters [OF assms this] show ?thesis
    by (simp add: omp_block_def omp_strategy_def)
qed

section \<open>The run of the blocks\<close>

lemma reports_Cons: "reports (sg # sgs) = report (lbl_of sg) @ reports sgs"
  by (simp add: reports_def)

lemma run_outcome_Nil:
  assumes "thrown s = None"
  shows "run_outcome file ref [] s s"
  using assms by (simp add: run_outcome_def reports_def)

lemma run_outcome_faulted:
  assumes "faulted ref s s1"
    "zeroed_before_exec (events s) \<longrightarrow> zeroed_before_exec (events s1)"
  shows "run_outcome file ref (sg # sgs) s s1"
proof -
  have "cout s1 = cout s @ reports (take 0 (sg # sgs)) \<and>
        0 < length (sg # sgs) \<and> (\<exists>f. thrown s1 = Some (UB f)) \<and> cerr s1 = cerr s \<and>
        dispatches (events s1)
          = dispatches (events s) @ concat (map launches_of (take 0 (sg # sgs))) \<and>
        (all_equal ref (expects (events s)) \<longrightarrow> all_equal ref (expects (events s1)))"
    using assms(1) by (simp add: faulted_def reports_def)
  then show ?thesis
    unfolding run_outcome_def using assms(2) by blast
qed

lemma run_outcome_failed:
  assumes "failed file ref sg s s1"
    "zeroed_before_exec (events s) \<longrightarrow> zeroed_before_exec (events s1)"
  shows "run_outcome file ref (sg # sgs) s s1"
proof -
  have "cout s1 = cout s @ reports (take 0 (sg # sgs)) \<and>
        0 < length (sg # sgs) \<and> thrown s1 = Some (RuntimeError (msg_of ((sg # sgs) ! 0))) \<and>
        dispatches (events s1)
          = dispatches (events s) @ concat (map launches_of (take (Suc 0) (sg # sgs))) \<and>
        (all_equal ref (expects (events s)) \<longrightarrow>
           all_equal ref (expects (butlast (events s1)))) \<and>
        (\<exists>b. b \<noteq> ref \<and>
             cerr s1 = cerr s
               @ mismatch_report ref b (msg_of ((sg # sgs) ! 0)) file (line_of ((sg # sgs) ! 0)) \<and>
             events s1 \<noteq> [] \<and> last (events s1) = Expect ref b (line_of ((sg # sgs) ! 0)))"
    using assms(1) by (simp add: failed_def reports_def)
  then show ?thesis
    unfolding run_outcome_def using assms(2) by blast
qed

lemma run_outcome_passed:
  assumes p: "passed ref sg s s1" and c: "cout s1 = cout s @ report (lbl_of sg)"
    and z: "zeroed_before_exec (events s) \<longrightarrow> zeroed_before_exec (events s1)"
    and r: "run_outcome file ref sgs s1 s2"
  shows "run_outcome file ref (sg # sgs) s s2"
proof -
  from p have p1: "cerr s1 = cerr s"
    "dispatches (events s1) = dispatches (events s) @ launches_of sg"
    "all_equal ref (expects (events s)) \<longrightarrow> all_equal ref (expects (events s1))"
    by (simp_all add: passed_def)
  from r obtain k where k: "k \<le> length sgs"
    and co: "cout s2 = cout s1 @ reports (take k sgs)"
    and z2: "zeroed_before_exec (events s1) \<longrightarrow> zeroed_before_exec (events s2)"
    and d: "k = length sgs \<and> thrown s2 = None \<and> cerr s2 = cerr s1 \<and>
          dispatches (events s2) = dispatches (events s1) @ concat (map launches_of sgs) \<and>
          (all_equal ref (expects (events s1)) \<longrightarrow> all_equal ref (expects (events s2)))
          \<or>
          k < length sgs \<and> (\<exists>f. thrown s2 = Some (UB f)) \<and> cerr s2 = cerr s1 \<and>
          dispatches (events s2)
            = dispatches (events s1) @ concat (map launches_of (take k sgs)) \<and>
          (all_equal ref (expects (events s1)) \<longrightarrow> all_equal ref (expects (events s2)))
          \<or>
          k < length sgs \<and> thrown s2 = Some (RuntimeError (msg_of (sgs ! k))) \<and>
          dispatches (events s2)
            = dispatches (events s1) @ concat (map launches_of (take (Suc k) sgs)) \<and>
          (all_equal ref (expects (events s1)) \<longrightarrow>
             all_equal ref (expects (butlast (events s2)))) \<and>
          (\<exists>b. b \<noteq> ref \<and>
               cerr s2 = cerr s1
                 @ mismatch_report ref b (msg_of (sgs ! k)) file (line_of (sgs ! k)) \<and>
               events s2 \<noteq> [] \<and> last (events s2) = Expect ref b (line_of (sgs ! k)))"
    unfolding run_outcome_def by blast
  have co': "cout s2 = cout s @ reports (take (Suc k) (sg # sgs))"
    using co c by (simp add: reports_Cons)
  have k': "Suc k \<le> length (sg # sgs)" using k by simp
  from d have "Suc k = length (sg # sgs) \<and> thrown s2 = None \<and> cerr s2 = cerr s \<and>
          dispatches (events s2) = dispatches (events s) @ concat (map launches_of (sg # sgs)) \<and>
          (all_equal ref (expects (events s)) \<longrightarrow> all_equal ref (expects (events s2)))
          \<or>
          Suc k < length (sg # sgs) \<and> (\<exists>f. thrown s2 = Some (UB f)) \<and> cerr s2 = cerr s \<and>
          dispatches (events s2)
            = dispatches (events s) @ concat (map launches_of (take (Suc k) (sg # sgs))) \<and>
          (all_equal ref (expects (events s)) \<longrightarrow> all_equal ref (expects (events s2)))
          \<or>
          Suc k < length (sg # sgs) \<and>
          thrown s2 = Some (RuntimeError (msg_of ((sg # sgs) ! Suc k))) \<and>
          dispatches (events s2)
            = dispatches (events s) @ concat (map launches_of (take (Suc (Suc k)) (sg # sgs))) \<and>
          (all_equal ref (expects (events s)) \<longrightarrow>
             all_equal ref (expects (butlast (events s2)))) \<and>
          (\<exists>b. b \<noteq> ref \<and>
               cerr s2 = cerr s
                 @ mismatch_report ref b (msg_of ((sg # sgs) ! Suc k)) file
                     (line_of ((sg # sgs) ! Suc k)) \<and>
               events s2 \<noteq> [] \<and> last (events s2) = Expect ref b (line_of ((sg # sgs) ! Suc k)))"
  proof (elim disjE conjE exE)
    assume "k = length sgs" "thrown s2 = None" "cerr s2 = cerr s1"
      "dispatches (events s2) = dispatches (events s1) @ concat (map launches_of sgs)"
      "all_equal ref (expects (events s1)) \<longrightarrow> all_equal ref (expects (events s2))"
    then show ?thesis using p1 by simp
  next
    fix f
    assume "k < length sgs" "thrown s2 = Some (UB f)" "cerr s2 = cerr s1"
      "dispatches (events s2) = dispatches (events s1) @ concat (map launches_of (take k sgs))"
      "all_equal ref (expects (events s1)) \<longrightarrow> all_equal ref (expects (events s2))"
    then show ?thesis using p1 by simp
  next
    fix b
    assume "k < length sgs" "thrown s2 = Some (RuntimeError (msg_of (sgs ! k)))"
      "dispatches (events s2)
         = dispatches (events s1) @ concat (map launches_of (take (Suc k) sgs))"
      "all_equal ref (expects (events s1)) \<longrightarrow> all_equal ref (expects (butlast (events s2)))"
      "b \<noteq> ref"
      "cerr s2 = cerr s1 @ mismatch_report ref b (msg_of (sgs ! k)) file (line_of (sgs ! k))"
      "events s2 \<noteq> []" "last (events s2) = Expect ref b (line_of (sgs ! k))"
    then show ?thesis using p1 by simp
  qed
  then show ?thesis
    unfolding run_outcome_def using co' k' z z2 by blast
qed

lemma run_blocks:
  assumes "list_all2 (\<lambda>b sg. \<forall>s. thrown s = None \<longrightarrow> block_outcome file ref sg s (b s)) bs sgs"
    and "thrown s = None"
  shows "run_outcome file ref sgs s (run_steps bs s)"
  using assms
proof (induction bs sgs arbitrary: s rule: list_all2_induct)
  case Nil
  then show ?case by (simp add: run_outcome_Nil)
next
  case (Cons b bs sg sgs)
  let ?s1 = "b s"
  from Cons.hyps(1) Cons.prems have o: "block_outcome file ref sg s ?s1" by simp
  then have z: "zeroed_before_exec (events s) \<longrightarrow> zeroed_before_exec (events ?s1)"
    and c: "passed ref sg s ?s1 \<and> cout ?s1 = cout s @ report (lbl_of sg) \<or> faulted ref s ?s1 \<or>
            failed file ref sg s ?s1"
    by (simp_all add: block_outcome_def)
  from c show ?case
  proof (elim disjE conjE)
    assume p: "passed ref sg s ?s1" and co: "cout ?s1 = cout s @ report (lbl_of sg)"
    then have t: "thrown ?s1 = None" by (simp add: passed_def)
    have "run_outcome file ref sgs ?s1 (run_steps bs ?s1)" using t by (rule Cons.IH)
    with p co z have "run_outcome file ref (sg # sgs) s (run_steps bs ?s1)"
      by (rule run_outcome_passed)
    then show ?thesis using t by (simp add: Let_def)
  next
    assume f: "faulted ref s ?s1"
    then have "thrown ?s1 \<noteq> None" by (auto simp: faulted_def)
    then have "run_steps (b # bs) s = ?s1" by (auto simp: Let_def)
    then show ?thesis using run_outcome_faulted [OF f z] by simp
  next
    assume f: "failed file ref sg s ?s1"
    then have "thrown ?s1 \<noteq> None" by (auto simp: failed_def)
    then have "run_steps (b # bs) s = ?s1" by (auto simp: Let_def)
    then show ?thesis using run_outcome_failed [OF f z] by simp
  qed
qed

lemma global_work_size_harness:
  "global_work_size n workGroupSize
     = Inr ((n + workGroupSize - 1) div workGroupSize * workGroupSize)"
  by (simp add: global_work_size_def workGroupSize_def)

lemma block_outcome_upload:
  "block_outcome file ref sg (s\<lparr>as_buffer := a\<rparr>) s' = block_outcome file ref sg s s'"
  by (simp add: block_outcome_def passed_def faulted_def failed_def)

lemma run_steps_tail:
  assumes "thrown s = None" "\<And>t. thrown (u t) = thrown t"
  shows "run_steps (fs @ [u, run_steps (g # gs)]) s = run_steps (fs @ (\<lambda>t. g (u t)) # gs) s"
proof (cases "thrown (run_steps fs s) = None")
  case True
  then show ?thesis
    using assms by (simp add: run_steps_append Let_def)
next
  case False
  then show ?thesis
    using assms(1) by (auto simp: run_steps_append)
qed

lemma gpu_part_steps:
  assumes "global_work_size n workGroupSize = Inr g"
  shows "gpu_part K file n ref = run_steps (gpu_blocks K file n ref g)"
  using assms by (intro ext) (simp add: gpu_part_def)

lemma harness_steps:
  assumes "global_work_size n workGroupSize = Inr g" "thrown s = None"
  shows "run_steps
            [cpu_block file as n ref, omp_block file as ref scheds,
             (\<lambda>s. s\<lparr>as_buffer := as\<rparr>), gpu_part K file n ref] s
         = run_steps (harness_blocks scheds K file n as ref g) s"
proof -
  have "run_steps
          ([cpu_block file as n ref, omp_block file as ref scheds]
           @ [(\<lambda>s. s\<lparr>as_buffer := as\<rparr>),
              run_steps
                (gpu_block K ''globalAtomSum'' g 97 ''GPU (Atomic): '' file n ref
                 # tl (gpu_blocks K file n ref g))]) s
      = run_steps
          ([cpu_block file as n ref, omp_block file as ref scheds]
           @ (\<lambda>t. gpu_block K ''globalAtomSum'' g 97 ''GPU (Atomic): '' file n ref
                     (t\<lparr>as_buffer := as\<rparr>))
             # tl (gpu_blocks K file n ref g)) s"
    using assms(2) by (rule run_steps_tail) simp
  moreover have "gpu_block K ''globalAtomSum'' g 97 ''GPU (Atomic): '' file n ref
                 # tl (gpu_blocks K file n ref g) = gpu_blocks K file n ref g"
    by (simp add: gpu_blocks_def)
  moreover have "[cpu_block file as n ref, omp_block file as ref scheds]
           @ (\<lambda>t. gpu_block K ''globalAtomSum'' g 97 ''GPU (Atomic): '' file n ref
                     (t\<lparr>as_buffer := as\<rparr>))
             # tl (gpu_blocks K file n ref g) = harness_blocks scheds K file n as ref g"
    by (simp add: gpu_blocks_def harness_blocks_def)
  ultimately show ?thesis
    by (simp only: gpu_part_steps [OF assms(1)] append_Cons append_Nil)
qed

lemma gpu_block_upload_outcome:
  assumes "thrown s = None"
  shows "block_outcome file ref (gpu_strategy lbl ln name gws) s
           (gpu_block K name gws ln lbl file n ref (s\<lparr>as_buffer := a\<rparr>))"
proof -
  have "thrown (s\<lparr>as_buffer := a\<rparr>) = None" using assms by simp
  then have "block_outcome file ref (gpu_strategy lbl ln name gws) (s\<lparr>as_buffer := a\<rparr>)
           (gpu_block K name gws ln lbl file n ref (s\<lparr>as_buffer := a\<rparr>))"
    by (rule gpu_block_outcome)
  then show ?thesis by (simp only: block_outcome_upload)
qed

lemma harness_blocks_outcome:
  "list_all2 (\<lambda>b sg. \<forall>s. thrown s = None \<longrightarrow> block_outcome file ref sg s (b s))
     (harness_blocks scheds K file n as ref g) (strategies g)"
  unfolding harness_blocks_def strategies_def gpu_strategies_def
  by (simp add: cpu_block_outcome omp_block_outcome gpu_block_outcome
      gpu_block_upload_outcome)

lemma harness_outcome:
  assumes "generate nxt r0 n = Inr (r, as, ref)" "global_work_size n workGroupSize = Inr g"
  shows "run_outcome file ref (strategies g) (start junk) (harness nxt r0 scheds K file junk n)"
proof -
  have t: "thrown (start junk) = None" by (simp add: start_def)
  have "harness nxt r0 scheds K file junk n
      = run_steps (harness_blocks scheds K file n as ref g) (start junk)"
    using assms(1) harness_steps [OF assms(2) t] by (simp add: harness_def)
  then show ?thesis
    using run_blocks [OF harness_blocks_outcome t] by simp
qed

section \<open>The run never stops at undefined behaviour on generated input\<close>







section \<open>The run of the harness\<close>






lemma harness_generation_fault:
  assumes "generate nxt r0 n = Inl e"
  shows "harness nxt r0 scheds K file junk n = (start junk)\<lparr>thrown := Some (UB e)\<rparr>"
  using assms by (simp add: harness_def)

lemma harness_zeroed: "zeroed_before_exec (events (harness nxt r0 scheds K file junk n))"
proof (cases "generate nxt r0 n")
  case (Inl e)
  then show ?thesis by (simp add: harness_generation_fault start_def)
next
  case (Inr t)
  obtain r as ref where t: "t = (r, as, ref)" by (cases t) auto
  have "run_outcome file ref
          (strategies ((n + workGroupSize - 1) div workGroupSize * workGroupSize))
          (start junk) (harness nxt r0 scheds K file junk n)"
    using Inr [unfolded t] global_work_size_harness by (rule harness_outcome)
  then show ?thesis by (simp add: run_outcome_def start_def)
qed

lemma harness_dispatches:
  assumes "global_work_size n workGroupSize = Inr g"
  shows "\<exists>j \<le> length (strategies g).
           dispatches (events (harness nxt r0 scheds K file junk n))
             = concat (map launches_of (take j (strategies g))) \<and>
           (thrown (harness nxt r0 scheds K file junk n) = None \<longrightarrow> j = length (strategies g))"
proof (cases "generate nxt r0 n")
  case (Inl e)
  have "dispatches (events (harness nxt r0 scheds K file junk n))
          = concat (map launches_of (take 0 (strategies g)))"
    "thrown (harness nxt r0 scheds K file junk n) \<noteq> None"
    using Inl by (simp_all add: harness_generation_fault start_def)
  then show ?thesis by (intro exI [of _ 0]) auto
next
  case (Inr t)
  obtain r as ref where t: "t = (r, as, ref)" by (cases t) auto
  let ?s = "harness nxt r0 scheds K file junk n"
  have "run_outcome file ref (strategies g) (start junk) ?s"
    using Inr [unfolded t] assms by (rule harness_outcome)
  then obtain k where k: "k \<le> length (strategies g)"
    and c: "k = length (strategies g) \<and> thrown ?s = None \<and>
            dispatches (events ?s) = concat (map launches_of (strategies g))
            \<or>
            k < length (strategies g) \<and> (\<exists>f. thrown ?s = Some (UB f)) \<and>
            dispatches (events ?s) = concat (map launches_of (take k (strategies g)))
            \<or>
            k < length (strategies g) \<and>
            thrown ?s = Some (RuntimeError (msg_of (strategies g ! k))) \<and>
            dispatches (events ?s) = concat (map launches_of (take (Suc k) (strategies g)))"
    unfolding run_outcome_def by (auto simp: start_def)
  from c show ?thesis
  proof (elim disjE conjE exE)
    assume "k = length (strategies g)" "thrown ?s = None"
      "dispatches (events ?s) = concat (map launches_of (strategies g))"
    then show ?thesis by (intro exI [of _ "length (strategies g)"]) simp
  next
    fix f
    assume "k < length (strategies g)" "thrown ?s = Some (UB f)"
      "dispatches (events ?s) = concat (map launches_of (take k (strategies g)))"
    then show ?thesis by (intro exI [of _ k]) auto
  next
    assume a: "k < length (strategies g)"
      "thrown ?s = Some (RuntimeError (msg_of (strategies g ! k)))"
      "dispatches (events ?s) = concat (map launches_of (take (Suc k) (strategies g)))"
    then show ?thesis by (intro exI [of _ "Suc k"]) auto
  qed
qed

lemma launches_of_strategies:
  "concat (map launches_of (strategies g))
     = replicate benchmarkingIters (''globalAtomSum'', workGroupSize, g)
       @ replicate benchmarkingIters (''BatchSum'', workGroupSize, g div 32)
       @ replicate benchmarkingIters (''BatchSumCoalesed'', workGroupSize, g div 32)
       @ replicate benchmarkingIters (''LocalMemSUm'', workGroupSize, g)
       @ replicate benchmarkingIters (''TreeSum'', workGroupSize, g)"
  by (simp add: strategies_def cpu_strategy_def omp_strategy_def gpu_strategies_def
      gpu_strategy_def)

lemma set_concat_take:
  "set (concat (map f (take j xs))) \<subseteq> set (concat (map f xs))"
  using set_take_subset [of j xs] by auto

lemma global_size_multiple_of_32:
  assumes "global_work_size n workGroupSize = Inr g"
  shows "unat (g div 32) * 32 = unat g"
proof -
  let ?q = "(n + workGroupSize - 1) div workGroupSize"
  have g: "g = ?q * 128" using assms by (simp add: global_work_size_def workGroupSize_def)
  have "unat ?q = unat (n + workGroupSize - 1) div 128"
    by (simp add: unat_div workGroupSize_def)
  moreover have "unat (n + workGroupSize - 1) < 2 ^ 32"
    using unsigned_less [of "n + workGroupSize - 1", where 'a = nat] by simp
  ultimately have q: "unat ?q * unat (128 :: u32) < 2 ^ LENGTH(32)" by simp
  have u: "unat g = unat ?q * 128"
    unfolding g using unat_mult_lem [THEN iffD1, OF q] by simp
  have "unat (g div 32) = unat g div 32" by (simp add: unat_div)
  then show ?thesis unfolding u by simp
qed

lemma global_size_covers:
  assumes "global_work_size n workGroupSize = Inr g" "unat n + 127 \<le> UINT_MAX"
  shows "unat n \<le> unat g \<and> unat g < unat n + 128"
proof -
  have w: "workGroupSize \<noteq> 0" "unat workGroupSize = 128" by (simp_all add: workGroupSize_def)
  have f: "unat n + unat workGroupSize - 1 < 2 ^ 32" using assms(2) w by (simp add: UINT_MAX_def)
  have g: "g = (n + workGroupSize - 1) div workGroupSize * workGroupSize"
    using assms(1) w by (simp add: global_work_size_def)
  have u: "unat g = (unat n + 128 - 1) div 128 * 128"
    unfolding g using unat_round_up [OF w(1) f] w(2) by simp
  have "unat n \<le> (unat n + 128 - 1) div 128 * 128" by (rule round_up_nat_ge) simp
  moreover have "(unat n + 128 - 1) div 128 * 128 \<le> unat n + 128 - 1" by simp
  ultimately show ?thesis unfolding u by linarith
qed

text \<open>
  C4: in every run of the harness, whatever the kernels do and whatever the sum buffer
  held before, each kernel dispatch comes directly after the harness has written \<open>0\<close> to
  the device-side sum buffer, and starts from the accumulator \<open>0\<close>.
\<close>

theorem accumulator_zeroed_before_every_trial:
  "zeroed_before_exec (events (harness nxt r0 scheds K file junk n))"
  by (rule harness_zeroed)

theorem accumulator_zeroed_before_every_trial_witness:
  "zeroed_before_exec (events (harness top_random () two_threads exact_kernels ''main_sum.cpp'' 7 3)) \<and>
   length (dispatches (events (harness top_random () two_threads exact_kernels ''main_sum.cpp'' 7 3)))
     = 50 \<and>
   take 3 (drop 40 (events (harness top_random () two_threads exact_kernels ''main_sum.cpp'' 7 3)))
     = [WriteN 0, Exec ''globalAtomSum'' 128 128 0 4294967295, NextLap]"
proof -
  have "length (dispatches (events
          (harness top_random () two_threads exact_kernels ''main_sum.cpp'' 7 3))) = 50"
    by code_simp
  moreover have "take 3 (drop 40 (events
          (harness top_random () two_threads exact_kernels ''main_sum.cpp'' 7 3)))
     = [WriteN 0, Exec ''globalAtomSum'' 128 128 0 4294967295, NextLap]"
    by code_simp
  ultimately show ?thesis
    using accumulator_zeroed_before_every_trial
      [of top_random "()" two_threads exact_kernels "''main_sum.cpp''" 7 3]
    by simp
qed

text \<open>
  C7: the global work size \<open>g\<close> of the Global-Atomic variant is a multiple of \<open>32\<close>, and in
  every run the Strided-Batch and the Coalesced-Batch kernels are dispatched only with the
  global size \<open>g / 32\<close>, ten times each in a run that reaches its end; when \<open>n + 127\<close> does
  not wrap, \<open>32\<close> times that work-item count is at least \<open>n\<close> and less than \<open>n + 128\<close>.
\<close>

theorem batch_strategies_launch_sizes:
  fixes nxt :: "'r random" and r0 :: 'r and scheds :: "nat \<Rightarrow> schedule" and K :: kernels
    and fname :: string and junk :: u32 and n :: u32
  defines "s \<equiv> harness nxt r0 scheds K fname junk n"
  shows "\<exists>g. global_work_size n workGroupSize = Inr g \<and>
           unat (g div 32) * 32 = unat g \<and>
           set (dispatches (events s))
             \<subseteq> {(''globalAtomSum'', workGroupSize, g),
                 (''BatchSum'', workGroupSize, g div 32),
                 (''BatchSumCoalesed'', workGroupSize, g div 32),
                 (''LocalMemSUm'', workGroupSize, g),
                 (''TreeSum'', workGroupSize, g)} \<and>
           (thrown s = None \<longrightarrow>
              dispatches (events s)
                = replicate benchmarkingIters (''globalAtomSum'', workGroupSize, g)
                  @ replicate benchmarkingIters (''BatchSum'', workGroupSize, g div 32)
                  @ replicate benchmarkingIters (''BatchSumCoalesed'', workGroupSize, g div 32)
                  @ replicate benchmarkingIters (''LocalMemSUm'', workGroupSize, g)
                  @ replicate benchmarkingIters (''TreeSum'', workGroupSize, g)) \<and>
           (unat n + 127 \<le> UINT_MAX \<longrightarrow>
              unat n \<le> unat (g div 32) * 32 \<and> unat (g div 32) * 32 < unat n + 128)"
proof -
  let ?g = "(n + workGroupSize - 1) div workGroupSize * workGroupSize"
  have w: "global_work_size n workGroupSize = Inr ?g" by (rule global_work_size_harness)
  have m: "unat (?g div 32) * 32 = unat ?g" using w by (rule global_size_multiple_of_32)
  have "\<exists>j \<le> length (strategies ?g).
           dispatches (events s) = concat (map launches_of (take j (strategies ?g))) \<and>
           (thrown s = None \<longrightarrow> j = length (strategies ?g))"
    unfolding s_def by (rule harness_dispatches [OF w])
  then obtain j where
    d: "dispatches (events s) = concat (map launches_of (take j (strategies ?g)))"
    and f: "thrown s = None \<longrightarrow> j = length (strategies ?g)"
    by (elim exE conjE)
  have "set (dispatches (events s)) \<subseteq> set (concat (map launches_of (strategies ?g)))"
    unfolding d by (rule set_concat_take)
  also have "\<dots> = {(''globalAtomSum'', workGroupSize, ?g),
                 (''BatchSum'', workGroupSize, ?g div 32),
                 (''BatchSumCoalesed'', workGroupSize, ?g div 32),
                 (''LocalMemSUm'', workGroupSize, ?g),
                 (''TreeSum'', workGroupSize, ?g)}"
    unfolding launches_of_strategies by (auto simp: benchmarkingIters_def)
  finally have a: "set (dispatches (events s))
             \<subseteq> {(''globalAtomSum'', workGroupSize, ?g),
                 (''BatchSum'', workGroupSize, ?g div 32),
                 (''BatchSumCoalesed'', workGroupSize, ?g div 32),
                 (''LocalMemSUm'', workGroupSize, ?g),
                 (''TreeSum'', workGroupSize, ?g)}" .
  have b: "thrown s = None \<longrightarrow>
              dispatches (events s)
                = replicate benchmarkingIters (''globalAtomSum'', workGroupSize, ?g)
                  @ replicate benchmarkingIters (''BatchSum'', workGroupSize, ?g div 32)
                  @ replicate benchmarkingIters (''BatchSumCoalesed'', workGroupSize, ?g div 32)
                  @ replicate benchmarkingIters (''LocalMemSUm'', workGroupSize, ?g)
                  @ replicate benchmarkingIters (''TreeSum'', workGroupSize, ?g)"
    using d f by (simp flip: launches_of_strategies)
  have c: "unat n + 127 \<le> UINT_MAX \<longrightarrow>
              unat n \<le> unat (?g div 32) * 32 \<and> unat (?g div 32) * 32 < unat n + 128"
    unfolding m using global_size_covers [OF w] by blast
  from w m a b c show ?thesis by (intro exI [of _ ?g] conjI)
qed

theorem batch_strategies_launch_sizes_witness:
  "global_work_size n_elems workGroupSize = Inr 100000000 \<and>
   unat n_elems + 127 \<le> UINT_MAX \<and>
   unat (100000000 div 32 :: u32) * 32 = unat n_elems \<and>
   thrown (harness top_random () two_threads exact_kernels ''main_sum.cpp'' 7 3) = None \<and>
   dispatches (events (harness top_random () two_threads exact_kernels ''main_sum.cpp'' 7 3))
     = replicate 10 (''globalAtomSum'', 128, 128) @ replicate 10 (''BatchSum'', 128, 4)
       @ replicate 10 (''BatchSumCoalesed'', 128, 4) @ replicate 10 (''LocalMemSUm'', 128, 128)
       @ replicate 10 (''TreeSum'', 128, 128)"
proof -
  have w: "global_work_size n_elems workGroupSize = Inr 100000000"
    by (simp add: global_work_size_def n_elems_def workGroupSize_def)
  have u: "unat n_elems + 127 \<le> UINT_MAX" by (simp add: n_elems_def UINT_MAX_def)
  have e: "unat (100000000 div 32 :: u32) * 32 = unat n_elems" by (simp add: n_elems_def)
  have w3: "global_work_size 3 workGroupSize = Inr 128"
    by (simp add: global_work_size_def workGroupSize_def)
  have t: "thrown (harness top_random () two_threads exact_kernels ''main_sum.cpp'' 7 3) = None"
    by code_simp
  from batch_strategies_launch_sizes
    [where nxt = top_random and ?r0.0 = "()" and scheds = two_threads and K = exact_kernels
      and fname = "''main_sum.cpp''" and junk = 7 and n = 3] w3 t
  have "dispatches (events (harness top_random () two_threads exact_kernels ''main_sum.cpp'' 7 3))
     = replicate 10 (''globalAtomSum'', 128, 128) @ replicate 10 (''BatchSum'', 128, 4)
       @ replicate 10 (''BatchSumCoalesed'', 128, 4) @ replicate 10 (''LocalMemSUm'', 128, 128)
       @ replicate 10 (''TreeSum'', 128, 128)"
    by (auto simp: benchmarkingIters_def workGroupSize_def)
  with w u e t show ?thesis by blast
qed

section \<open>The checks of a block\<close>

lemma checked_iter_pass:
  assumes "thrown s = None"
  shows "checked_iter file ln msg ref (Inr ref) s
           = s\<lparr>sum_host := ref, events := events s @ [Expect ref ref ln, NextLap]\<rparr>"
  using assms
  by (simp add: checked_iter_def set_sum_def EXPECT_THE_SAME_def raiseFail_def nextLap_def
      Let_def)

lemma checked_iter_stop:
  assumes "thrown s = None" "r \<noteq> Inr ref"
  shows "thrown (checked_iter file ln msg ref r s) \<noteq> None"
  using assms
  by (cases r)
    (auto simp: checked_iter_def set_sum_def EXPECT_THE_SAME_def raiseFail_def nextLap_def
      Let_def)

lemma checked_iters_thrown:
  assumes "thrown s = None"
  shows "(thrown (run_steps (map (checked_iter file ln msg ref) rs) s) = None)
           = (\<forall>r \<in> set rs. r = Inr ref)"
  using assms
proof (induction rs arbitrary: s)
  case Nil
  then show ?case by simp
next
  case (Cons r rs)
  show ?case
  proof (cases "r = Inr ref")
    case True
    let ?s1 = "checked_iter file ln msg ref r s"
    have t: "thrown ?s1 = None" using Cons.prems True by (simp add: checked_iter_pass)
    show ?thesis using Cons.IH [OF t] t True by (simp add: Let_def)
  next
    case False
    then have "thrown (checked_iter file ln msg ref r s) \<noteq> None"
      using Cons.prems by (intro checked_iter_stop)
    then show ?thesis using False by (auto simp: Let_def)
  qed
qed

lemma checked_iters_expects:
  assumes "thrown s = None" "\<forall>r \<in> set rs. r = Inr ref"
  shows "expects (events (run_steps (map (checked_iter file ln msg ref) rs) s))
           = expects (events s) @ replicate (length rs) (ref, ref, ln)"
  using assms
proof (induction rs arbitrary: s)
  case Nil
  then show ?case by simp
next
  case (Cons r rs)
  let ?s1 = "checked_iter file ln msg ref r s"
  have r: "r = Inr ref" using Cons.prems(2) by simp
  have s1: "?s1 = s\<lparr>sum_host := ref, events := events s @ [Expect ref ref ln, NextLap]\<rparr>"
    unfolding r using Cons.prems(1) by (rule checked_iter_pass)
  have t: "thrown ?s1 = None" using Cons.prems(1) by (simp add: s1)
  have "expects (events (run_steps (map (checked_iter file ln msg ref) rs) ?s1))
           = expects (events ?s1) @ replicate (length rs) (ref, ref, ln)"
    using t Cons.prems(2) by (intro Cons.IH) simp_all
  then show ?case using t by (simp add: Let_def s1 expects_append replicate_app_Cons_same)
qed

lemma cpu_block_checked:
  "cpu_block file as n ref
     = run_steps
         (map (checked_iter file 40 ''CPU result should be consistent!'' ref)
            (replicate benchmarkingIters (cpu_sum as n))
          @ [print_report ''CPU:     ''])"
  by (simp add: cpu_block_def cpu_iter_def checked_iter_def)

lemma omp_block_checked:
  "omp_block file as ref scheds
     = run_steps
         (map (checked_iter file 55 ''CPU OpenMP result should be consistent!'' ref)
            (map (\<lambda>iter. omp_sum as (scheds iter)) [0..<benchmarkingIters])
          @ [print_report ''CPU OMP: ''])"
  by (simp add: omp_block_def omp_iter_def checked_iter_def comp_def)

lemma checked_block_thrown:
  assumes "thrown s = None"
  shows "(thrown (run_steps (map (checked_iter file ln msg ref) rs @ [print_report lbl]) s) = None)
           = (\<forall>r \<in> set rs. r = Inr ref)"
proof -
  let ?s1 = "run_steps (map (checked_iter file ln msg ref) rs) s"
  have "(thrown (run_steps (map (checked_iter file ln msg ref) rs @ [print_report lbl]) s) = None)
      = (thrown ?s1 = None)"
    using assms by (auto simp: run_steps_append print_report_def Let_def)
  then show ?thesis using checked_iters_thrown [OF assms] by simp
qed

lemma checked_block_expects:
  assumes "thrown s = None" "\<forall>r \<in> set rs. r = Inr ref"
  shows "expects (events (run_steps (map (checked_iter file ln msg ref) rs @ [print_report lbl]) s))
           = expects (events s) @ replicate (length rs) (ref, ref, ln)"
proof -
  let ?s1 = "run_steps (map (checked_iter file ln msg ref) rs) s"
  have t: "thrown ?s1 = None" using checked_iters_thrown [OF assms(1)] assms(2) by simp
  have "events (run_steps (map (checked_iter file ln msg ref) rs @ [print_report lbl]) s)
      = events ?s1"
    using assms(1) t by (simp add: run_steps_append print_report_def Let_def)
  then show ?thesis using checked_iters_expects [OF assms] by simp
qed

text \<open>
  C6, as stated, for a GPU strategy: with kernels whose first launch on the input \<open>[5]\<close>
  leaves \<open>9\<close> in the accumulator and whose later launches leave the right sum \<open>5\<close>, the
  result of the first of the ten iterations differs from the oracle's sum, the block
  makes one comparison, after the loop, and the run passes.
\<close>

theorem gpu_block_checks_last_iteration_only:
  "events (gpu_block late_kernels ''globalAtomSum'' 128 97 ''GPU (Atomic): '' ''main_sum.cpp'' 1 5
             ((start 7)\<lparr>as_buffer := [5]\<rparr>)) ! 1
     = Exec ''globalAtomSum'' 128 128 0 9 \<and>
   expects (events (gpu_block late_kernels ''globalAtomSum'' 128 97 ''GPU (Atomic): ''
                      ''main_sum.cpp'' 1 5 ((start 7)\<lparr>as_buffer := [5]\<rparr>)))
     = [(5, 5, 97)] \<and>
   thrown (gpu_block late_kernels ''globalAtomSum'' 128 97 ''GPU (Atomic): '' ''main_sum.cpp'' 1 5
             ((start 7)\<lparr>as_buffer := [5]\<rparr>)) = None"
  by code_simp

text \<open>
  C6 (amended): every block repeats its measured run \<open>benchmarkingIters = 10\<close> times. The
  sequential CPU block and the OpenMP block compare the sum of every iteration with the
  oracle's: they pass exactly when every iteration's sum is the oracle's, after ten
  comparisons. A GPU block makes one comparison, after its loop: it passes exactly when
  the accumulator left by the last of the ten launches is the oracle's sum.
\<close>

theorem checks_per_block:
  assumes "thrown s = None"
  shows "(thrown (cpu_block file as n ref s) = None \<longleftrightarrow> cpu_sum as n = Inr ref) \<and>
         (thrown (cpu_block file as n ref s) = None \<longrightarrow>
            expects (events (cpu_block file as n ref s))
              = expects (events s) @ replicate benchmarkingIters (ref, ref, 40)) \<and>
         (thrown (omp_block file as ref scheds s) = None \<longleftrightarrow>
            (\<forall>iter < benchmarkingIters. omp_sum as (scheds iter) = Inr ref)) \<and>
         (thrown (omp_block file as ref scheds s) = None \<longrightarrow>
            expects (events (omp_block file as ref scheds s))
              = expects (events s) @ replicate benchmarkingIters (ref, ref, 55)) \<and>
         (thrown (gpu_block K name gws ln lbl file n ref s) = None \<longleftrightarrow>
            snd ((launch K name gws n ^^ benchmarkingIters) (as_buffer s, sum_buffer s)) = ref) \<and>
         dispatches (events (gpu_block K name gws ln lbl file n ref s))
           = dispatches (events s) @ replicate benchmarkingIters (name, workGroupSize, gws) \<and>
         expects (events (gpu_block K name gws ln lbl file n ref s))
           = expects (events s)
             @ [(ref, snd ((launch K name gws n ^^ benchmarkingIters) (as_buffer s, sum_buffer s)),
                 ln)]"
proof -
  have c1: "thrown (cpu_block file as n ref s) = None \<longleftrightarrow> cpu_sum as n = Inr ref"
    unfolding cpu_block_checked checked_block_thrown [OF assms]
    by (simp add: benchmarkingIters_def)
  have c2: "thrown (cpu_block file as n ref s) = None \<longrightarrow>
            expects (events (cpu_block file as n ref s))
              = expects (events s) @ replicate benchmarkingIters (ref, ref, 40)"
  proof
    assume "thrown (cpu_block file as n ref s) = None"
    then have "\<forall>r \<in> set (replicate benchmarkingIters (cpu_sum as n)). r = Inr ref"
      using c1 by simp
    from checked_block_expects [OF assms this] show
      "expects (events (cpu_block file as n ref s))
         = expects (events s) @ replicate benchmarkingIters (ref, ref, 40)"
      by (simp add: cpu_block_checked)
  qed
  have o1: "thrown (omp_block file as ref scheds s) = None \<longleftrightarrow>
            (\<forall>iter < benchmarkingIters. omp_sum as (scheds iter) = Inr ref)"
    unfolding omp_block_checked checked_block_thrown [OF assms] by auto
  have o2: "thrown (omp_block file as ref scheds s) = None \<longrightarrow>
            expects (events (omp_block file as ref scheds s))
              = expects (events s) @ replicate benchmarkingIters (ref, ref, 55)"
  proof
    assume "thrown (omp_block file as ref scheds s) = None"
    then have "\<forall>r \<in> set (map (\<lambda>iter. omp_sum as (scheds iter)) [0..<benchmarkingIters]).
                 r = Inr ref"
      using o1 by auto
    from checked_block_expects [OF assms this] show
      "expects (events (omp_block file as ref scheds s))
         = expects (events s) @ replicate benchmarkingIters (ref, ref, 55)"
      by (simp add: omp_block_checked)
  qed
  note g = gpu_block_result [OF assms]
  have g1: "thrown (gpu_block K name gws ln lbl file n ref s) = None \<longleftrightarrow>
            snd ((launch K name gws n ^^ benchmarkingIters) (as_buffer s, sum_buffer s)) = ref"
    using assms by (auto simp: g Let_def)
  have g2: "dispatches (events (gpu_block K name gws ln lbl file n ref s))
           = dispatches (events s) @ replicate benchmarkingIters (name, workGroupSize, gws)"
    by (simp add: g Let_def dispatches_append dispatches_trials)
  have g3: "expects (events (gpu_block K name gws ln lbl file n ref s))
           = expects (events s)
             @ [(ref, snd ((launch K name gws n ^^ benchmarkingIters) (as_buffer s, sum_buffer s)),
                 ln)]"
    by (simp add: g Let_def expects_append expects_trials)
  from c1 c2 o1 o2 g1 g2 g3 show ?thesis by (intro conjI)
qed

theorem checks_per_block_witness:
  "thrown (start 7) = None \<and> cpu_sum [1, 2, 4] 3 = Inr 7 \<and>
   thrown (cpu_block ''main_sum.cpp'' [1, 2, 4] 3 7 (start 7)) = None \<and>
   expects (events (cpu_block ''main_sum.cpp'' [1, 2, 4] 3 7 (start 7)))
     = replicate 10 (7, 7, 40) \<and>
   omp_sum [1, 2, 4] (two_threads 0) = Inr 7 \<and>
   thrown (omp_block ''main_sum.cpp'' [1, 2, 4] 7 two_threads (start 7)) = None \<and>
   thrown (gpu_block exact_kernels ''TreeSum'' 128 175 ''GPU (TreeSum): '' ''main_sum.cpp'' 3 0
             (start 7)) = None"
proof -
  have t: "thrown (start 7) = None" by (simp add: start_def)
  have c: "cpu_sum [1, 2, 4] 3 = Inr 7" by code_simp
  have o: "omp_sum [1, 2, 4] (two_threads 0) = Inr 7" by code_simp
  then have o': "\<forall>iter<benchmarkingIters. omp_sum [1, 2, 4] (two_threads iter) = Inr 7"
    by (simp add: two_threads_def)
  have g: "snd ((launch exact_kernels ''TreeSum'' 128 3 ^^ benchmarkingIters)
                 (as_buffer (start 7), sum_buffer (start 7))) = 0"
    by code_simp
  note w = checks_per_block [OF t, where as = "[1, 2, 4]" and n = 3 and ref = 7
      and scheds = two_threads]
  note w0 = checks_per_block [OF t, where K = exact_kernels and name = "''TreeSum''"
      and gws = 128 and n = 3 and ref = 0]
  have "thrown (cpu_block ''main_sum.cpp'' [1, 2, 4] 3 7 (start 7)) = None"
    using w c by blast
  moreover from this have "expects (events (cpu_block ''main_sum.cpp'' [1, 2, 4] 3 7 (start 7)))
     = replicate 10 (7, 7, 40)"
    using w by (simp add: start_def benchmarkingIters_def)
  moreover have "thrown (omp_block ''main_sum.cpp'' [1, 2, 4] 7 two_threads (start 7)) = None"
    using w o' by blast
  moreover have "thrown (gpu_block exact_kernels ''TreeSum'' 128 175 ''GPU (TreeSum): ''
                   ''main_sum.cpp'' 3 0 (start 7)) = None"
    using w0 g by blast
  ultimately show ?thesis using t c o by blast
qed





end
